theory Spec2Isabelle
  imports Complex_Main "HOL-Library.Extended_Nat"
begin

section \<open>Double-precision arithmetic as the search uses it\<close>

text \<open>
  The search adds step costs and heuristic values as Python floats (IEEE-754 binary64).
  A finite double is \<open>m * 2^e\<close> for integers \<open>m\<close>, \<open>e\<close>; it is kept here as that pair in
  lowest terms (\<open>m\<close> odd, or \<open>(0, 0)\<close> for zero), so that two doubles are equal exactly when
  their pairs are. Every operation computes the exact result and rounds it to 53
  significant bits, ties to even. The exponent range is not bounded: overflow to infinity
  and the subnormal range are outside the model, and so is NaN (the search never takes the
  root of a negative number).
\<close>

type_synonym float64 = "int \<times> int"

function bit_length :: "int \<Rightarrow> int" where
  "bit_length n = (if n \<le> 0 then 0 else 1 + bit_length (n div 2))"
  by pat_completeness auto
termination
  by (relation "measure nat") auto

function canon :: "int \<times> int \<Rightarrow> float64" where
  "canon (m, e) =
     (if m = 0 then (0, 0)
      else if even m then canon (m div 2, e + 1)
      else (m, e))"
  by pat_completeness auto
termination
  by (relation "measure (\<lambda>(m, e). nat \<bar>m\<bar>)") auto

definition round_half_even :: "int \<Rightarrow> nat \<Rightarrow> int" where
  "round_half_even a d =
     (let q = a div 2 ^ d; r = a mod 2 ^ d
      in if 2 * r > 2 ^ d \<or> (2 * r = 2 ^ d \<and> odd q) then q + 1 else q)"

definition fl_round :: "int \<times> int \<Rightarrow> float64" where
  "fl_round x =
     (case x of (m, e) \<Rightarrow>
        let d = nat (bit_length \<bar>m\<bar> - 53)
        in canon (round_half_even m d, e + int d))"

definition fl_of_int :: "int \<Rightarrow> float64" where
  "fl_of_int k = fl_round (k, 0)"

definition fl_zero :: float64 where
  "fl_zero = (0, 0)"

definition fl_one :: float64 where
  "fl_one = (1, 0)"

definition fl_align :: "float64 \<Rightarrow> float64 \<Rightarrow> int \<times> int \<times> int" where
  "fl_align x y =
     (case x of (m1, e1) \<Rightarrow> case y of (m2, e2) \<Rightarrow>
        let e = min e1 e2
        in (m1 * 2 ^ nat (e1 - e), m2 * 2 ^ nat (e2 - e), e))"

definition fl_add :: "float64 \<Rightarrow> float64 \<Rightarrow> float64" where
  "fl_add x y = (case fl_align x y of (a, b, e) \<Rightarrow> fl_round (a + b, e))"

definition fl_sub :: "float64 \<Rightarrow> float64 \<Rightarrow> float64" where
  "fl_sub x y = (case fl_align x y of (a, b, e) \<Rightarrow> fl_round (a - b, e))"

definition fl_mul :: "float64 \<Rightarrow> float64 \<Rightarrow> float64" where
  "fl_mul x y = (case x of (m1, e1) \<Rightarrow> case y of (m2, e2) \<Rightarrow> fl_round (m1 * m2, e1 + e2))"

definition fl_less :: "float64 \<Rightarrow> float64 \<Rightarrow> bool" where
  "fl_less x y = (case fl_align x y of (a, b, e) \<Rightarrow> a < b)"

fun isqrt_bits :: "nat \<Rightarrow> nat \<Rightarrow> nat \<Rightarrow> nat" where
  "isqrt_bits k n r =
     (if k = 0 then r
      else let c = r + 2 ^ (k - 1)
           in if c * c \<le> n then isqrt_bits (k - 1) n c else isqrt_bits (k - 1) n r)"

definition isqrt :: "nat \<Rightarrow> nat" where
  "isqrt n = isqrt_bits (nat ((bit_length (int n) + 1) div 2)) n 0"

text \<open>
  The square root is taken of the integer \<open>n = m * 2^t\<close>, where \<open>t\<close> makes the exponent even and
  gives the integer root \<open>s\<close> at least 55 bits; \<open>2 * s\<close>, plus one when the root is not exact,
  then rounds to the same double as the real square root.
\<close>

definition sqrt_shift :: "int \<Rightarrow> nat" where
  "sqrt_shift e = (if even e then 108 else 109)"

definition sqrt_sticky :: "nat \<Rightarrow> nat \<Rightarrow> int" where
  "sqrt_sticky n s = 2 * int s + (if s * s = n then 0 else 1)"

definition fl_sqrt :: "float64 \<Rightarrow> float64" where
  "fl_sqrt x =
     (case x of (m, e) \<Rightarrow>
        if m \<le> 0 then (0, 0)
        else fl_round (sqrt_sticky (nat m * 2 ^ sqrt_shift e) (isqrt (nat m * 2 ^ sqrt_shift e)),
                       (e - int (sqrt_shift e)) div 2 - 1))"

section \<open>The passability grid\<close>

text \<open>
  A cell is a pair (row, column) of Python integers. The grid is a two-dimensional numpy
  array, kept as the list of its rows; a cell value of 0 is passable, anything else is an
  obstacle. \<open>rows\<close> and \<open>cols\<close> are the two components of \<open>grid.shape\<close>.
\<close>

type_synonym cell = "int \<times> int"

type_synonym grid = "int list list"

datatype error = IndexError | KeyError | ValueError

definition rows :: "grid \<Rightarrow> int" where
  "rows g = int (length g)"

definition cols :: "grid \<Rightarrow> int" where
  "cols g = (case g of [] \<Rightarrow> 0 | r # _ \<Rightarrow> int (length r))"

text \<open>
  Indexing one axis of length \<open>n\<close> the way numpy does: an index in \<open>[0, n)\<close> is used as it
  is, an index in \<open>[-n, 0)\<close> counts from the end, anything else raises IndexError.
\<close>

definition np_index :: "int \<Rightarrow> int \<Rightarrow> error + nat" where
  "np_index n i =
     (if 0 \<le> i \<and> i < n then Inr (nat i)
      else if - n \<le> i \<and> i < 0 then Inr (nat (n + i))
      else Inl IndexError)"

definition grid_at :: "grid \<Rightarrow> cell \<Rightarrow> error + int" where
  "grid_at g c =
     (case np_index (rows g) (fst c) of
        Inl e \<Rightarrow> Inl e
      | Inr i \<Rightarrow>
          (case np_index (cols g) (snd c) of
             Inl e \<Rightarrow> Inl e
           | Inr j \<Rightarrow> Inr (g ! i ! j)))"

definition in_bounds :: "grid \<Rightarrow> cell \<Rightarrow> bool" where
  "in_bounds g c \<longleftrightarrow> 0 \<le> fst c \<and> fst c < rows g \<and> 0 \<le> snd c \<and> snd c < cols g"

section \<open>The search\<close>

subsection \<open>Heuristic\<close>

text \<open>
  \<open>np.array(node) - np.array(goal)\<close> subtracts in numpy's 64-bit integers, where the
  difference wraps; the coordinates themselves are taken to lie within that range.
  \<open>np.linalg.norm\<close> then converts the components to doubles, squares and adds them, and
  takes the root. Each square and the sum are rounded here; a fused multiply-add inside
  numpy's dot product would round once less, which makes no difference as long as the
  squares and their sum are below \<open>2^53\<close> and therefore exact.
\<close>

definition wrap64 :: "int \<Rightarrow> int" where
  "wrap64 k = (k + 2 ^ 63) mod 2 ^ 64 - 2 ^ 63"

definition np_norm :: "int \<Rightarrow> int \<Rightarrow> float64" where
  "np_norm a b =
     fl_sqrt (fl_add (fl_mul (fl_of_int a) (fl_of_int a)) (fl_mul (fl_of_int b) (fl_of_int b)))"

definition selector :: int where
  "selector = 9"

definition heuristic :: "cell \<Rightarrow> cell \<Rightarrow> float64" where
  "heuristic node goal =
     (let i = selector in
      if i = 0 then
        fl_of_int (\<bar>fst node - fst goal\<bar> + \<bar>snd node - snd goal\<bar>)
      else if i = 1 then
        (let dx = \<bar>fst node - fst goal\<bar>;
             dy = \<bar>snd node - snd goal\<bar>
         in fl_add (fl_of_int (max dx dy))
              (fl_mul (fl_sub (fl_sqrt (fl_of_int 2)) fl_one) (fl_of_int (min dx dy))))
      else if i = 2 then
        fl_of_int (max \<bar>fst node - fst goal\<bar> \<bar>snd node - snd goal\<bar>)
      else
        np_norm (wrap64 (fst node - fst goal)) (wrap64 (snd node - snd goal)))"



subsection \<open>Neighbours\<close>

definition directions :: "(int \<times> int) list" where
  "directions = [(-1, 0), (1, 0), (0, -1), (0, 1), (-1, -1), (-1, 1), (1, -1), (1, 1)]"

definition get_neighbors :: "grid \<Rightarrow> cell \<Rightarrow> cell list" where
  "get_neighbors g node =
     filter (\<lambda>n. 0 \<le> fst n \<and> fst n < rows g \<and> 0 \<le> snd n \<and> snd n < cols g
                  \<and> grid_at g n = Inr 0)
       (map (\<lambda>d. (fst node + fst d, snd node + snd d)) directions)"

subsection \<open>The open set\<close>

text \<open>
  The open set is a \<open>heapq\<close> heap of pairs (f, node). Python orders tuples by their first
  differing component. \<open>heappop\<close> returns the least entry of the heap whatever its layout,
  so the heap is kept as the list of its entries and a pop removes the least one.
\<close>

type_synonym entry = "float64 \<times> cell"

definition cell_less :: "cell \<Rightarrow> cell \<Rightarrow> bool" where
  "cell_less a b = (if fst a \<noteq> fst b then fst a < fst b else snd a < snd b)"

definition entry_less :: "entry \<Rightarrow> entry \<Rightarrow> bool" where
  "entry_less a b = (if fst a \<noteq> fst b then fl_less (fst a) (fst b) else cell_less (snd a) (snd b))"

fun least :: "entry \<Rightarrow> entry list \<Rightarrow> entry" where
  "least e [] = e"
| "least e (a # as) = least (if entry_less a e then a else e) as"

definition heap_min :: "entry list \<Rightarrow> entry" where
  "heap_min h = least (hd h) (tl h)"

definition heappush :: "entry list \<Rightarrow> entry \<Rightarrow> entry list" where
  "heappush h e = h @ [e]"

definition heappop :: "entry list \<Rightarrow> entry \<times> entry list" where
  "heappop h = (heap_min h, remove1 (heap_min h) h)"

subsection \<open>Search state\<close>

record astar =
  start :: cell
  goal :: cell
  grid :: grid
  open_set :: "entry list"
  open_set_hash :: "cell set"
  closed_set :: "cell set"
  came_from :: "cell \<rightharpoonup> cell"
  g_score :: "cell \<rightharpoonup> float64"
  f_score :: "cell \<rightharpoonup> float64"

definition astar_init :: "cell \<Rightarrow> cell \<Rightarrow> grid \<Rightarrow> astar" where
  "astar_init st gl g =
     \<lparr> start = st, goal = gl, grid = g,
       open_set = heappush [] (heuristic st gl, st),
       open_set_hash = {st},
       closed_set = {},
       came_from = Map.empty,
       g_score = [st \<mapsto> fl_zero],
       f_score = [st \<mapsto> heuristic st gl] \<rparr>"

subsection \<open>Path reconstruction\<close>

text \<open>
  The loop of \<open>reconstruct_path\<close> follows \<open>came_from\<close> from the goal for as long as the
  current cell has a parent. On a cyclic \<open>came_from\<close> it would not return; \<open>None\<close> stands
  for that.
\<close>

partial_function (option) reconstruct_loop ::
  "(cell \<rightharpoonup> cell) \<Rightarrow> cell \<Rightarrow> cell list \<Rightarrow> cell list option" where
  "reconstruct_loop cf current path =
     (case cf current of
        Some parent \<Rightarrow> reconstruct_loop cf parent (path @ [current])
      | None \<Rightarrow> Some path)"

definition reconstruct_path :: "astar \<Rightarrow> cell list option" where
  "reconstruct_path s =
     (case reconstruct_loop (came_from s) (goal s) [] of
        None \<Rightarrow> None
      | Some path \<Rightarrow> Some (rev (path @ [start s])))"

subsection \<open>Expanding a cell\<close>

definition movement_cost :: "cell \<Rightarrow> cell \<Rightarrow> float64" where
  "movement_cost current neighbor =
     (let dx = \<bar>fst neighbor - fst current\<bar>;
          dy = \<bar>snd neighbor - snd current\<bar>
      in if dx = 1 \<and> dy = 1 then fl_sqrt (fl_of_int 2) else fl_one)"

definition relax :: "astar \<Rightarrow> cell \<Rightarrow> cell \<Rightarrow> error + astar" where
  "relax s current neighbor =
     (if neighbor \<in> closed_set s then Inr s
      else
        (case g_score s current of
           None \<Rightarrow> Inl KeyError
         | Some gc \<Rightarrow>
             let tentative_g = fl_add gc (movement_cost current neighbor) in
             if (case g_score s neighbor of None \<Rightarrow> True | Some gn \<Rightarrow> fl_less tentative_g gn)
             then
               let f = fl_add tentative_g (heuristic neighbor (goal s));
                   s1 = s\<lparr> came_from := (came_from s)(neighbor \<mapsto> current),
                           g_score := (g_score s)(neighbor \<mapsto> tentative_g),
                           f_score := (f_score s)(neighbor \<mapsto> f) \<rparr>
               in if neighbor \<notin> open_set_hash s1
                  then Inr (s1\<lparr> open_set := heappush (open_set s1) (f, neighbor),
                                open_set_hash := insert neighbor (open_set_hash s1) \<rparr>)
                  else Inr s1
             else Inr s))"

fun explore :: "astar \<Rightarrow> cell \<Rightarrow> cell list \<Rightarrow> error + astar" where
  "explore s current [] = Inr s"
| "explore s current (neighbor # rest) =
     (case relax s current neighbor of
        Inl e \<Rightarrow> Inl e
      | Inr s' \<Rightarrow> explore s' current rest)"

subsection \<open>The main loop\<close>

text \<open>
  The result of a call is \<open>None\<close> when it does not return, \<open>Some (Inl e)\<close> when it raises
  \<open>e\<close>, and \<open>Some (Inr r)\<close> when it returns \<open>r\<close>; \<open>find_path\<close> returns a path or Python's
  \<open>None\<close>, so \<open>r\<close> is itself an option.
\<close>

type_synonym 'a outcome = "(error + 'a) option"

datatype step = Finished "cell list option outcome" | Continue astar

definition loop_body :: "astar \<Rightarrow> step" where
  "loop_body s =
     (case heappop (open_set s) of
        ((current_f, current), h) \<Rightarrow>
          if current \<notin> open_set_hash s then Finished (Some (Inl KeyError))
          else
            let s1 = s\<lparr> open_set := h, open_set_hash := open_set_hash s - {current} \<rparr> in
            if current \<in> closed_set s1 then Continue s1
            else
              let s2 = s1\<lparr> closed_set := insert current (closed_set s1) \<rparr> in
              if current = goal s2 then
                Finished (case reconstruct_path s2 of None \<Rightarrow> None | Some p \<Rightarrow> Some (Inr (Some p)))
              else
                (case explore s2 current (get_neighbors (grid s2) current) of
                   Inl e \<Rightarrow> Finished (Some (Inl e))
                 | Inr s3 \<Rightarrow> Continue s3))"

text \<open>
  The \<open>while self.open_set\<close> loop; \<open>None\<close> stands for a loop that does not end.
\<close>

partial_function (option) find_loop :: "astar \<Rightarrow> cell list option outcome" where
  "find_loop s =
     (if open_set s = [] then Some (Inr None)
      else (case loop_body s of
              Finished r \<Rightarrow> r
            | Continue s' \<Rightarrow> find_loop s'))"

definition find_path :: "astar \<Rightarrow> cell list option outcome" where
  "find_path s =
     (case grid_at (grid s) (start s) of
        Inl e \<Rightarrow> Some (Inl e)
      | Inr v \<Rightarrow>
          if v \<noteq> 0 then Some (Inr None)
          else
            (case grid_at (grid s) (goal s) of
               Inl e \<Rightarrow> Some (Inl e)
             | Inr w \<Rightarrow> if w \<noteq> 0 then Some (Inr None) else find_loop s))"

definition find_shortest_path :: "cell \<Rightarrow> cell \<Rightarrow> grid \<Rightarrow> cell list option outcome" where
  "find_shortest_path st gl g = find_path (astar_init st gl g)"

section \<open>Doors and bins\<close>

text \<open>
  Modelled from the spec: the class \<open>core.Entity\<close> (and its subclass for bins) is not among
  the sources; \<open>Door.__init__\<close> and the uses in \<open>doors.py\<close> show its fields: a number, the
  pixel coordinates \<open>x\<close> and \<open>y\<close>, and a type tag.
\<close>

record entity =
  number :: int
  x :: int
  y :: int
  type :: string

record door = entity +
  assigned_bin :: "int option"
  path_to_bin :: "cell list option"

definition Door :: "int \<Rightarrow> int \<Rightarrow> int \<Rightarrow> door" where
  "Door n px py =
     \<lparr> number = n, x = px, y = py, type = ''door'', assigned_bin = None, path_to_bin = None \<rparr>"

definition assign_bin :: "door \<Rightarrow> entity \<Rightarrow> error + door" where
  "assign_bin d bin_entity =
     (if type bin_entity \<noteq> ''bin'' then Inl ValueError
      else Inr (d\<lparr> assigned_bin := Some (number bin_entity) \<rparr>))"

text \<open>
  The loop over the bins carries \<open>closest_bin\<close>, \<open>shortest_path\<close> and \<open>shortest_distance\<close>;
  the last starts at \<open>float('inf')\<close> and is a path length afterwards.
\<close>

type_synonym best = "entity option \<times> cell list option \<times> enat"

fun scan_bins :: "cell \<Rightarrow> grid \<Rightarrow> entity list \<Rightarrow> best \<Rightarrow> best outcome" where
  "scan_bins door_pos g [] acc = Some (Inr acc)"
| "scan_bins door_pos g (bin_entity # rest) acc =
     (case find_shortest_path door_pos (y bin_entity, x bin_entity) g of
        None \<Rightarrow> None
      | Some (Inl e) \<Rightarrow> Some (Inl e)
      | Some (Inr None) \<Rightarrow> scan_bins door_pos g rest acc
      | Some (Inr (Some path)) \<Rightarrow>
          (case acc of (closest_bin, shortest_path, shortest_distance) \<Rightarrow>
             if enat (length path) < shortest_distance
             then scan_bins door_pos g rest (Some bin_entity, Some path, enat (length path))
             else scan_bins door_pos g rest acc))"

definition find_closest_bin :: "door \<Rightarrow> entity list \<Rightarrow> grid \<Rightarrow> (door \<times> entity option) outcome" where
  "find_closest_bin d bins map_grid =
     (if bins = [] then Some (Inr (d, None))
      else
        (case scan_bins (y d, x d) map_grid bins (None, None, \<infinity>) of
           None \<Rightarrow> None
         | Some (Inl e) \<Rightarrow> Some (Inl e)
         | Some (Inr (closest_bin, shortest_path, shortest_distance)) \<Rightarrow>
             (case closest_bin of
                Some b \<Rightarrow>
                  Some (Inr (d\<lparr> assigned_bin := Some (number b), path_to_bin := shortest_path \<rparr>,
                             Some b))
              | None \<Rightarrow> Some (Inr (d, None)))))"

definition get_path_to_bin :: "door \<Rightarrow> cell list option" where
  "get_path_to_bin d = path_to_bin d"

section \<open>Paths\<close>

text \<open>
  The notions the properties below are stated with. A cell is passable when it lies within
  the bounds of the grid and holds 0; two cells are king-move adjacent when they
  differ by at most one row and one column; a walkable path is a non-empty sequence of
  passable cells within the bounds of the grid, each adjacent to the next. The cost of a
  path charges 1 for a step along a row or column and \<open>sqrt 2\<close> for a diagonal step.
\<close>

definition passable :: "grid \<Rightarrow> cell \<Rightarrow> bool" where
  "passable g c \<longleftrightarrow> in_bounds g c \<and> grid_at g c = Inr 0"

definition king_adjacent :: "cell \<Rightarrow> cell \<Rightarrow> bool" where
  "king_adjacent a b \<longleftrightarrow> \<bar>fst a - fst b\<bar> \<le> 1 \<and> \<bar>snd a - snd b\<bar> \<le> 1"

fun king_chain :: "cell list \<Rightarrow> bool" where
  "king_chain (a # b # rest) = (king_adjacent a b \<and> king_chain (b # rest))"
| "king_chain _ = True"

definition walkable :: "grid \<Rightarrow> cell list \<Rightarrow> bool" where
  "walkable g p \<longleftrightarrow> p \<noteq> [] \<and> (\<forall>c \<in> set p. in_bounds g c \<and> passable g c) \<and> king_chain p"

definition step_cost :: "cell \<Rightarrow> cell \<Rightarrow> real" where
  "step_cost a b = (if \<bar>fst a - fst b\<bar> = 1 \<and> \<bar>snd a - snd b\<bar> = 1 then sqrt 2 else 1)"

fun path_cost :: "cell list \<Rightarrow> real" where
  "path_cost (a # b # rest) = step_cost a b + path_cost (b # rest)"
| "path_cost _ = 0"

section \<open>Sequences of operations on a door\<close>

text \<open>
  The public operations of a door, and the door after a sequence of them. A call that
  raises leaves the door as it was; \<open>None\<close> stands for a call that does not return.
\<close>

datatype door_op = AssignBin entity | FindClosestBin "entity list" grid | GetPathToBin

fun apply_op :: "door \<Rightarrow> door_op \<Rightarrow> door option" where
  "apply_op d (AssignBin b) = (case assign_bin d b of Inl e \<Rightarrow> Some d | Inr d' \<Rightarrow> Some d')"
| "apply_op d (FindClosestBin bins g) =
     (case find_closest_bin d bins g of
        None \<Rightarrow> None
      | Some (Inl e) \<Rightarrow> Some d
      | Some (Inr (d', r)) \<Rightarrow> Some d')"
| "apply_op d GetPathToBin = (case get_path_to_bin d of _ \<Rightarrow> Some d)"

fun apply_ops :: "door \<Rightarrow> door_op list \<Rightarrow> door option" where
  "apply_ops d [] = Some d"
| "apply_ops d (op # ops) = (case apply_op d op of None \<Rightarrow> None | Some d' \<Rightarrow> apply_ops d' ops)"

fun bins_of :: "door_op list \<Rightarrow> entity set" where
  "bins_of [] = {}"
| "bins_of (FindClosestBin bins g # ops) = set bins \<union> bins_of ops"
| "bins_of (_ # ops) = bins_of ops"

fun is_assign :: "door_op \<Rightarrow> bool" where
  "is_assign (AssignBin b) = True"
| "is_assign _ = False"

definition door_inv :: "entity set \<Rightarrow> door \<Rightarrow> bool" where
  "door_inv B d \<longleftrightarrow>
     (assigned_bin d = None \<and> path_to_bin d = None) \<or>
     (\<exists>b p. b \<in> B \<and> assigned_bin d = Some (number b) \<and> path_to_bin d = Some p \<and>
        p \<noteq> [] \<and> hd p = (y d, x d) \<and> last p = (y b, x b))"

section \<open>Notions for the proofs\<close>

text \<open>
  The cells of a grid, the cells of the open set, and the measure by which the loop ends:
  every round either closes a cell that was not closed or only shortens the open set.
\<close>

definition cells :: "grid \<Rightarrow> cell set" where
  "cells g = {c. in_bounds g c}"

definition open_nodes :: "astar \<Rightarrow> cell set" where
  "open_nodes s = snd ` set (open_set s)"

definition frontier :: "astar \<Rightarrow> cell set" where
  "frontier s = (cells (grid s) \<union> open_nodes s) - closed_set s"

definition loop_measure :: "(astar \<times> astar) set" where
  "loop_measure = inv_image (less_than <*lex*> less_than) (\<lambda>s. (card (frontier s), length (open_set s)))"

text \<open>
  Three facts hold at the head of every round of the loop. \<open>hash_ok\<close>: the hash set holds
  exactly the cells of the open set, no cell is in the open set twice, and every cell of
  the open set has a g-score. \<open>tree_ok\<close>: \<open>came_from\<close> maps a cell to a closed cell it is a
  neighbour of, never maps the start, leads from every closed or open cell back to the
  start, and has no cycle. \<open>begun\<close>: the start is closed, or it is the only cell that can
  be popped next.
\<close>

definition hash_ok :: "astar \<Rightarrow> bool" where
  "hash_ok s \<longleftrightarrow>
     open_set_hash s = open_nodes s \<and> distinct (map snd (open_set s)) \<and>
     open_nodes s \<subseteq> dom (g_score s)"

definition tree_ok :: "astar \<Rightarrow> bool" where
  "tree_ok s \<longleftrightarrow>
     start s \<notin> dom (came_from s) \<and>
     (\<forall>n p. came_from s n = Some p \<longrightarrow>
        p \<in> closed_set s \<and> n \<in> set (get_neighbors (grid s) p) \<and>
        (p = start s \<or> p \<in> dom (came_from s))) \<and>
     (\<forall>n \<in> closed_set s \<union> open_nodes s. n = start s \<or> n \<in> dom (came_from s)) \<and>
     (\<exists>rank :: cell \<Rightarrow> nat. \<forall>n p. came_from s n = Some p \<longrightarrow> rank p < rank n)"

definition begun :: "astar \<Rightarrow> bool" where
  "begun s \<longleftrightarrow> start s \<in> closed_set s \<or> open_nodes s \<subseteq> {start s}"

text \<open>
  \<open>chain cf c ch\<close>: \<open>ch\<close> is the list of cells the reconstruction visits from \<open>c\<close>;
  \<open>linked cf xs\<close>: each cell of \<open>xs\<close> has the next one as its parent; \<open>good_path\<close>: what holds of
  a reconstructed path.
\<close>

fun chain :: "(cell \<rightharpoonup> cell) \<Rightarrow> cell \<Rightarrow> cell list \<Rightarrow> bool" where
  "chain cf c [] = (cf c = None)"
| "chain cf c (n # ns) = (n = c \<and> (\<exists>p. cf c = Some p \<and> chain cf p ns))"

fun linked :: "(cell \<rightharpoonup> cell) \<Rightarrow> cell list \<Rightarrow> bool" where
  "linked cf (a # b # rest) = (cf a = Some b \<and> linked cf (b # rest))"
| "linked cf _ = True"

definition good_path :: "astar \<Rightarrow> cell list \<Rightarrow> bool" where
  "good_path s p \<longleftrightarrow>
     p \<noteq> [] \<and> hd p = start s \<and> last p = goal s \<and> king_chain p \<and>
     (\<forall>c \<in> set (tl p). in_bounds (grid s) c \<and> passable (grid s) c)"


section \<open>Example grids, bins and doors\<close>

definition detour_grid :: grid where
  "detour_grid = [[1, 0, 0, 0, 0], [0, 1, 1, 1, 0], [0, 0, 1, 0, 1], [0, 1, 0, 1, 1]]"

definition bin_at :: "int \<Rightarrow> cell \<Rightarrow> entity" where
  "bin_at n c = \<lparr> number = n, x = snd c, y = fst c, type = ''bin'' \<rparr>"


definition gap_grid :: grid where
  "gap_grid = [[0, 0, 1, 0]]"

definition assigned_door :: door where
  "assigned_door = (Door 1 0 0)\<lparr> assigned_bin := Some 1, path_to_bin := Some [(0, 0), (0, 1)] \<rparr>"

section \<open>Computing with the model\<close>

text \<open>
  The recursive equations are kept out of the simplifier; on numerals the functions are
  computed by the rules below.
\<close>

declare bit_length.simps [simp del] canon.simps [simp del] isqrt_bits.simps [simp del]

lemma bit_length_0: "bit_length 0 = 0" by (simp add: bit_length.simps)

lemma bit_length_1: "bit_length 1 = 1" by (simp add: bit_length.simps)

lemma bit_length_Bit0: "bit_length (numeral (Num.Bit0 k)) = 1 + bit_length (numeral k)"
  by (subst bit_length.simps) simp

lemma bit_length_Bit1: "bit_length (numeral (Num.Bit1 k)) = 1 + bit_length (numeral k)"
  by (subst bit_length.simps) simp

lemmas bit_length_eval = bit_length_0 bit_length_1 bit_length_Bit0 bit_length_Bit1

lemma canon_0: "canon (0, e) = (0, 0)" by (simp add: canon.simps)

lemma canon_1: "canon (1, e) = (1, e)" by (simp add: canon.simps)

lemma canon_neg_1: "canon (- 1, e) = (- 1, e)" by (simp add: canon.simps)

lemma canon_Bit0: "canon (numeral (Num.Bit0 k), e) = canon (numeral k, e + 1)"
  by (subst canon.simps) simp

lemma canon_Bit1: "canon (numeral (Num.Bit1 k), e) = (numeral (Num.Bit1 k), e)"
  by (subst canon.simps) simp

lemma canon_neg_Bit0: "canon (- numeral (Num.Bit0 k), e) = canon (- numeral k, e + 1)"
  by (subst canon.simps) simp

lemma canon_neg_Bit1: "canon (- numeral (Num.Bit1 k), e) = (- numeral (Num.Bit1 k), e)"
  by (subst canon.simps) simp

lemmas canon_eval = canon_0 canon_1 canon_neg_1 canon_Bit0 canon_Bit1 canon_neg_Bit0 canon_neg_Bit1

lemma isqrt_bits_0: "isqrt_bits 0 n r = r" by (simp add: isqrt_bits.simps)

lemma isqrt_bits_numeral:
  "isqrt_bits (numeral k) n r =
     (if (r + 2 ^ pred_numeral k) * (r + 2 ^ pred_numeral k) \<le> n
      then isqrt_bits (pred_numeral k) n (r + 2 ^ pred_numeral k)
      else isqrt_bits (pred_numeral k) n r)"
  by (subst isqrt_bits.simps) (simp add: Let_def numeral_eq_Suc)

lemma isqrt_bits_Suc0:
  "isqrt_bits (Suc 0) n r = (if (r + 1) * (r + 1) \<le> n then r + 1 else r)"
  by (subst isqrt_bits.simps) (simp add: Let_def isqrt_bits_0)

lemmas isqrt_eval = isqrt_def isqrt_bits_0 isqrt_bits_Suc0 isqrt_bits_numeral

lemmas fl_arith_eval = fl_of_int_def fl_round_def round_half_even_def fl_add_def fl_sub_def fl_mul_def
  fl_align_def fl_less_def fl_one_def fl_zero_def bit_length_eval canon_eval

lemmas fl_sqrt_eval = fl_sqrt_def sqrt_shift_def sqrt_sticky_def isqrt_eval bit_length_eval

lemmas heuristic_eval = heuristic_def selector_def np_norm_def wrap64_def

lemmas astar_eval = find_shortest_path_def find_path_def astar_init_def find_loop.simps loop_body_def
  heappop_def heap_min_def heappush_def relax_def get_neighbors_def directions_def grid_at_def
  np_index_def rows_def cols_def reconstruct_path_def reconstruct_loop.simps movement_cost_def
  entry_less_def cell_less_def

section \<open>The doubles of the example runs\<close>

text \<open>
  The square roots, sums and comparisons of doubles that the searches below meet, each
  computed from the definitions.
\<close>

lemma dbl_sqrt_0: "fl_sqrt (0, 0) = (0, 0)"
  by (simp add: fl_sqrt_def)

lemma dbl_sqrt_1: "fl_sqrt (1, 0) = (1, 0)"
  apply (simp add: fl_sqrt_eval)
  apply (simp add: fl_arith_eval)
  done

lemma dbl_sqrt_2: "fl_sqrt (1, 1) = (6369051672525773, -52)"
  apply (simp add: fl_sqrt_eval)
  apply (simp add: fl_arith_eval)
  done

lemma dbl_sqrt_3: "fl_sqrt (1, 2) = (1, 1)"
  apply (simp add: fl_sqrt_eval)
  apply (simp add: fl_arith_eval)
  done

lemma dbl_sqrt_4: "fl_sqrt (1, 3) = (6369051672525773, -51)"
  apply (simp add: fl_sqrt_eval)
  apply (simp add: fl_arith_eval)
  done

lemma dbl_sqrt_5: "fl_sqrt (1, 4) = (1, 2)"
  apply (simp add: fl_sqrt_eval)
  apply (simp add: fl_arith_eval)
  done

lemma dbl_sqrt_6: "fl_sqrt (5, 0) = (629397181890197, -48)"
  apply (simp add: fl_sqrt_eval)
  apply (simp add: fl_arith_eval)
  done

lemma dbl_sqrt_7: "fl_sqrt (5, 1) = (7120816245988179, -51)"
  apply (simp add: fl_sqrt_eval)
  apply (simp add: fl_arith_eval)
  done

lemma dbl_sqrt_8: "fl_sqrt (5, 2) = (629397181890197, -47)"
  apply (simp add: fl_sqrt_eval)
  apply (simp add: fl_arith_eval)
  done

lemma dbl_sqrt_9: "fl_sqrt (9, 0) = (3, 0)"
  apply (simp add: fl_sqrt_eval)
  apply (simp add: fl_arith_eval)
  done

lemma dbl_sqrt_10: "fl_sqrt (9, 1) = (4776788754394329, -50)"
  apply (simp add: fl_sqrt_eval)
  apply (simp add: fl_arith_eval)
  done

lemma dbl_sqrt_11: "fl_sqrt (13, 0) = (8118979690322419, -51)"
  apply (simp add: fl_sqrt_eval)
  apply (simp add: fl_arith_eval)
  done

lemma dbl_sqrt_12: "fl_sqrt (17, 0) = (4642204239785223, -50)"
  apply (simp add: fl_sqrt_eval)
  apply (simp add: fl_arith_eval)
  done

lemma dbl_sqrt_13: "fl_sqrt (25, 0) = (5, 0)"
  apply (simp add: fl_sqrt_eval)
  apply (simp add: fl_arith_eval)
  done

lemmas dbl_sqrt = dbl_sqrt_0 dbl_sqrt_1 dbl_sqrt_2 dbl_sqrt_3 dbl_sqrt_4 dbl_sqrt_5 dbl_sqrt_6 dbl_sqrt_7 dbl_sqrt_8 dbl_sqrt_9 dbl_sqrt_10 dbl_sqrt_11 dbl_sqrt_12 dbl_sqrt_13

lemma dbl_diagonal_step: "fl_sqrt (fl_of_int 2) = (6369051672525773, -52)"
  by (simp add: fl_arith_eval dbl_sqrt)

lemma dbl_h_0: "heuristic (- 1, 0) (0, 0) = (1, 0)"
  by (simp add: heuristic_eval fl_arith_eval dbl_sqrt)

lemma dbl_h_1: "heuristic (0, 0) (0, 0) = (0, 0)"
  by (simp add: heuristic_eval fl_arith_eval dbl_sqrt)

lemma dbl_h_2: "heuristic (0, 0) (0, 1) = (1, 0)"
  by (simp add: heuristic_eval fl_arith_eval dbl_sqrt)

lemma dbl_h_3: "heuristic (0, 0) (0, 3) = (3, 0)"
  by (simp add: heuristic_eval fl_arith_eval dbl_sqrt)

lemma dbl_h_4: "heuristic (0, 0) (0, 4) = (1, 2)"
  by (simp add: heuristic_eval fl_arith_eval dbl_sqrt)

lemma dbl_h_5: "heuristic (0, 0) (1, 0) = (1, 0)"
  by (simp add: heuristic_eval fl_arith_eval dbl_sqrt)

lemma dbl_h_6: "heuristic (0, 0) (1, 1) = (6369051672525773, -52)"
  by (simp add: heuristic_eval fl_arith_eval dbl_sqrt)

lemma dbl_h_7: "heuristic (0, 0) (3, 3) = (4776788754394329, -50)"
  by (simp add: heuristic_eval fl_arith_eval dbl_sqrt)

lemma dbl_h_8: "heuristic (0, 1) (0, 1) = (0, 0)"
  by (simp add: heuristic_eval fl_arith_eval dbl_sqrt)

lemma dbl_h_9: "heuristic (0, 1) (0, 3) = (1, 1)"
  by (simp add: heuristic_eval fl_arith_eval dbl_sqrt)

lemma dbl_h_10: "heuristic (0, 1) (0, 4) = (3, 0)"
  by (simp add: heuristic_eval fl_arith_eval dbl_sqrt)

lemma dbl_h_11: "heuristic (0, 1) (1, 0) = (6369051672525773, -52)"
  by (simp add: heuristic_eval fl_arith_eval dbl_sqrt)

lemma dbl_h_12: "heuristic (0, 1) (3, 3) = (8118979690322419, -51)"
  by (simp add: heuristic_eval fl_arith_eval dbl_sqrt)

lemma dbl_h_13: "heuristic (0, 2) (0, 4) = (1, 1)"
  by (simp add: heuristic_eval fl_arith_eval dbl_sqrt)

lemma dbl_h_14: "heuristic (0, 2) (3, 3) = (7120816245988179, -51)"
  by (simp add: heuristic_eval fl_arith_eval dbl_sqrt)

lemma dbl_h_15: "heuristic (0, 3) (0, 4) = (1, 0)"
  by (simp add: heuristic_eval fl_arith_eval dbl_sqrt)

lemma dbl_h_16: "heuristic (0, 4) (0, 4) = (0, 0)"
  by (simp add: heuristic_eval fl_arith_eval dbl_sqrt)

lemma dbl_h_17: "heuristic (1, 0) (0, 1) = (6369051672525773, -52)"
  by (simp add: heuristic_eval fl_arith_eval dbl_sqrt)

lemma dbl_h_18: "heuristic (1, 0) (0, 4) = (4642204239785223, -50)"
  by (simp add: heuristic_eval fl_arith_eval dbl_sqrt)

lemma dbl_h_19: "heuristic (1, 0) (1, 0) = (0, 0)"
  by (simp add: heuristic_eval fl_arith_eval dbl_sqrt)

lemma dbl_h_20: "heuristic (1, 1) (0, 1) = (1, 0)"
  by (simp add: heuristic_eval fl_arith_eval dbl_sqrt)

lemma dbl_h_21: "heuristic (1, 1) (0, 4) = (7120816245988179, -51)"
  by (simp add: heuristic_eval fl_arith_eval dbl_sqrt)

lemma dbl_h_22: "heuristic (1, 1) (1, 0) = (1, 0)"
  by (simp add: heuristic_eval fl_arith_eval dbl_sqrt)

lemma dbl_h_23: "heuristic (1, 1) (1, 1) = (0, 0)"
  by (simp add: heuristic_eval fl_arith_eval dbl_sqrt)

lemma dbl_h_24: "heuristic (1, 1) (3, 3) = (6369051672525773, -51)"
  by (simp add: heuristic_eval fl_arith_eval dbl_sqrt)

lemma dbl_h_25: "heuristic (1, 4) (0, 4) = (1, 0)"
  by (simp add: heuristic_eval fl_arith_eval dbl_sqrt)

lemma dbl_h_26: "heuristic (2, 0) (0, 4) = (629397181890197, -47)"
  by (simp add: heuristic_eval fl_arith_eval dbl_sqrt)

lemma dbl_h_27: "heuristic (2, 1) (0, 4) = (8118979690322419, -51)"
  by (simp add: heuristic_eval fl_arith_eval dbl_sqrt)

lemma dbl_h_28: "heuristic (2, 2) (3, 3) = (6369051672525773, -52)"
  by (simp add: heuristic_eval fl_arith_eval dbl_sqrt)

lemma dbl_h_29: "heuristic (2, 3) (0, 4) = (629397181890197, -48)"
  by (simp add: heuristic_eval fl_arith_eval dbl_sqrt)

lemma dbl_h_30: "heuristic (3, 0) (0, 4) = (5, 0)"
  by (simp add: heuristic_eval fl_arith_eval dbl_sqrt)

lemma dbl_h_31: "heuristic (3, 2) (0, 4) = (8118979690322419, -51)"
  by (simp add: heuristic_eval fl_arith_eval dbl_sqrt)

lemma dbl_h_32: "heuristic (3, 3) (3, 3) = (0, 0)"
  by (simp add: heuristic_eval fl_arith_eval dbl_sqrt)

lemma dbl_add_0: "fl_add (0, 0) (1, 0) = (1, 0)"
  by (simp add: fl_arith_eval)

lemma dbl_add_1: "fl_add (0, 0) (6369051672525773, -52) = (6369051672525773, -52)"
  by (simp add: fl_arith_eval)

lemma dbl_add_2: "fl_add (1, 0) (0, 0) = (1, 0)"
  by (simp add: fl_arith_eval)

lemma dbl_add_3: "fl_add (1, 0) (1, 0) = (1, 1)"
  by (simp add: fl_arith_eval)

lemma dbl_add_4: "fl_add (1, 0) (1, 1) = (3, 0)"
  by (simp add: fl_arith_eval)

lemma dbl_add_5: "fl_add (1, 0) (3, 0) = (1, 2)"
  by (simp add: fl_arith_eval)

lemma dbl_add_6: "fl_add (1, 0) (629397181890197, -47) = (770134670245525, -47)"
  by (simp add: fl_arith_eval)

lemma dbl_add_7: "fl_add (1, 0) (6369051672525773, -52) = (2718162824974067, -50)"
  by (simp add: fl_arith_eval)

lemma dbl_add_8: "fl_add (1, 0) (8118979690322419, -51) = (2592694876001917, -49)"
  by (simp add: fl_arith_eval)

lemma dbl_add_9: "fl_add (1, 1) (1, 0) = (3, 0)"
  by (simp add: fl_arith_eval)

lemma dbl_add_10: "fl_add (1, 1) (1, 1) = (1, 2)"
  by (simp add: fl_arith_eval)

lemma dbl_add_11: "fl_add (1, 1) (4642204239785223, -50) = (6894004053470471, -50)"
  by (simp add: fl_arith_eval)

lemma dbl_add_12: "fl_add (1, 1) (6369051672525773, -52) = (3844062731816691, -50)"
  by (simp add: fl_arith_eval)

lemma dbl_add_13: "fl_add (1, 2) (0, 0) = (1, 2)"
  by (simp add: fl_arith_eval)

lemma dbl_add_14: "fl_add (3, 0) (1, 0) = (1, 2)"
  by (simp add: fl_arith_eval)

lemma dbl_add_15: "fl_add (124395540479019, -44) (1, 0) = (141987726523435, -44)"
  by (simp add: fl_arith_eval)

lemma dbl_add_16: "fl_add (2388394377197165, -49) (0, 0) = (2388394377197165, -49)"
  by (simp add: fl_arith_eval)

lemma dbl_add_17: "fl_add (2388394377197165, -49) (629397181890197, -48) = (3647188740977559, -49)"
  by (simp add: fl_arith_eval)

lemma dbl_add_18: "fl_add (2388394377197165, -49) (6369051672525773, -52) = (6369051672525773, -50)"
  by (simp add: fl_arith_eval)

lemma dbl_add_19: "fl_add (6369051672525773, -52) (0, 0) = (6369051672525773, -52)"
  by (simp add: fl_arith_eval)

lemma dbl_add_20: "fl_add (6369051672525773, -52) (1, 0) = (2718162824974067, -50)"
  by (simp add: fl_arith_eval)

lemma dbl_add_21: "fl_add (6369051672525773, -52) (6369051672525773, -52) = (6369051672525773, -51)"
  by (simp add: fl_arith_eval)

lemma dbl_add_22: "fl_add (6369051672525773, -52) (6369051672525773, -51) = (2388394377197165, -49)"
  by (simp add: fl_arith_eval)

lemma dbl_add_23: "fl_add (6369051672525773, -52) (7120816245988179, -51) = (5152671041125533, -50)"
  by (simp add: fl_arith_eval)

lemma dbl_add_24: "fl_add (6369051672525773, -52) (8118979690322419, -51) = (5651752763292653, -50)"
  by (simp add: fl_arith_eval)

lemma dbl_add_25: "fl_add (6369051672525773, -51) (4642204239785223, -50) = (3913365038024055, -49)"
  by (simp add: fl_arith_eval)

lemma dbl_add_26: "fl_add (6369051672525773, -51) (6369051672525773, -52) = (2388394377197165, -49)"
  by (simp add: fl_arith_eval)

lemma dbl_add_27: "fl_add (6369051672525773, -51) (7120816245988179, -51) = (421558372453561, -46)"
  by (simp add: fl_arith_eval)

lemma dbl_add_28: "fl_add (6369051672525773, -51) (8118979690322419, -51) = (226375490044503, -45)"
  by (simp add: fl_arith_eval)

lemma dbl_add_29: "fl_add (6369051672525773, -50) (1, 0) = (7494951579368397, -50)"
  by (simp add: fl_arith_eval)

lemma dbl_add_30: "fl_add (6369051672525773, -50) (6369051672525773, -52) = (124395540479019, -44)"
  by (simp add: fl_arith_eval)

lemma dbl_add_31: "fl_add (7494951579368397, -50) (0, 0) = (7494951579368397, -50)"
  by (simp add: fl_arith_eval)

lemma dbl_less_0: "fl_less (1, 0) (2718162824974067, -50)"
  by (simp add: fl_arith_eval)

lemma dbl_less_1: "\<not> fl_less (1, 1) (6369051672525773, -52)"
  by (simp add: fl_arith_eval)

lemma dbl_less_2: "fl_less (1, 1) (6369051672525773, -51)"
  by (simp add: fl_arith_eval)

lemma dbl_less_3: "fl_less (1, 2) (5152671041125533, -50)"
  by (simp add: fl_arith_eval)

lemma dbl_less_4: "\<not> fl_less (141987726523435, -44) (7494951579368397, -50)"
  by (simp add: fl_arith_eval)

lemma dbl_less_5: "\<not> fl_less (226375490044503, -45) (770134670245525, -47)"
  by (simp add: fl_arith_eval)

lemma dbl_less_6: "fl_less (226375490044503, -45) (3913365038024055, -49)"
  by (simp add: fl_arith_eval)

lemma dbl_less_7: "\<not> fl_less (421558372453561, -46) (2592694876001917, -49)"
  by (simp add: fl_arith_eval)

lemma dbl_less_8: "fl_less (2388394377197165, -49) (2592694876001917, -49)"
  by (simp add: fl_arith_eval)

lemma dbl_less_9: "\<not> fl_less (2718162824974067, -50) (1, 0)"
  by (simp add: fl_arith_eval)

lemma dbl_less_10: "fl_less (3647188740977559, -49) (3913365038024055, -49)"
  by (simp add: fl_arith_eval)

lemma dbl_less_11: "\<not> fl_less (3844062731816691, -50) (6369051672525773, -52)"
  by (simp add: fl_arith_eval)

lemma dbl_less_12: "\<not> fl_less (3913365038024055, -49) (770134670245525, -47)"
  by (simp add: fl_arith_eval)

lemma dbl_less_13: "\<not> fl_less (5152671041125533, -50) (1, 2)"
  by (simp add: fl_arith_eval)

lemma dbl_less_14: "fl_less (5651752763292653, -50) (770134670245525, -47)"
  by (simp add: fl_arith_eval)

lemma dbl_less_15: "fl_less (7494951579368397, -50) (3913365038024055, -49)"
  by (simp add: fl_arith_eval)

lemmas dbl_facts = dbl_diagonal_step dbl_h_0 dbl_h_1 dbl_h_2 dbl_h_3 dbl_h_4 dbl_h_5 dbl_h_6
  dbl_h_7 dbl_h_8 dbl_h_9 dbl_h_10 dbl_h_11 dbl_h_12 dbl_h_13 dbl_h_14 dbl_h_15 dbl_h_16
  dbl_h_17 dbl_h_18 dbl_h_19 dbl_h_20 dbl_h_21 dbl_h_22 dbl_h_23 dbl_h_24 dbl_h_25 dbl_h_26
  dbl_h_27 dbl_h_28 dbl_h_29 dbl_h_30 dbl_h_31 dbl_h_32 dbl_add_0 dbl_add_1 dbl_add_2 dbl_add_3
  dbl_add_4 dbl_add_5 dbl_add_6 dbl_add_7 dbl_add_8 dbl_add_9 dbl_add_10 dbl_add_11 dbl_add_12
  dbl_add_13 dbl_add_14 dbl_add_15 dbl_add_16 dbl_add_17 dbl_add_18 dbl_add_19 dbl_add_20
  dbl_add_21 dbl_add_22 dbl_add_23 dbl_add_24 dbl_add_25 dbl_add_26 dbl_add_27 dbl_add_28
  dbl_add_29 dbl_add_30 dbl_add_31 dbl_less_0 dbl_less_1 dbl_less_2 dbl_less_3 dbl_less_4
  dbl_less_5 dbl_less_6 dbl_less_7 dbl_less_8 dbl_less_9 dbl_less_10 dbl_less_11 dbl_less_12
  dbl_less_13 dbl_less_14 dbl_less_15

section \<open>Example runs\<close>

lemma run_corner:
  "find_shortest_path (0, 0) (1, 1) [[0, 1], [1, 0]]
     = Some (Inr (Some [(0, 0), (1, 1)]))"
  by (simp add: astar_eval Let_def fl_zero_def fl_one_def dbl_facts)

lemma run_wrap:
  "find_shortest_path (- 1, 0) (0, 0) [[0], [0]]
     = Some (Inr (Some [(- 1, 0), (0, 0)]))"
  by (simp add: astar_eval Let_def fl_zero_def fl_one_def dbl_facts)

lemma run_detour:
  "find_shortest_path (3, 0) (0, 4) [[1, 0, 0, 0, 0], [0, 1, 1, 1, 0], [0, 0, 1, 0, 1], [0, 1, 0, 1, 1]]
     = Some (Inr (Some [(3, 0), (2, 1), (3, 2), (2, 3), (1, 4), (0, 4)]))"
  by (simp add: astar_eval Let_def fl_zero_def fl_one_def dbl_facts)

lemma run_gap_near:
  "find_shortest_path (0, 0) (0, 1) [[0, 0, 1, 0]]
     = Some (Inr (Some [(0, 0), (0, 1)]))"
  by (simp add: astar_eval Let_def fl_zero_def fl_one_def dbl_facts)


lemma run_tie_right:
  "find_shortest_path (0, 0) (0, 1) [[0, 0], [0, 0]]
     = Some (Inr (Some [(0, 0), (0, 1)]))"
  by (simp add: astar_eval Let_def fl_zero_def fl_one_def dbl_facts)

lemma run_tie_down:
  "find_shortest_path (0, 0) (1, 0) [[0, 0], [0, 0]]
     = Some (Inr (Some [(0, 0), (1, 0)]))"
  by (simp add: astar_eval Let_def fl_zero_def fl_one_def dbl_facts)



section \<open>The loop ends\<close>

lemma cells_eq: "cells g = {0..<rows g} \<times> {0..<cols g}"
  by (auto simp: cells_def in_bounds_def)

lemma finite_cells: "finite (cells g)"
  by (simp add: cells_eq)

lemma get_neighbors_in_bounds: "n \<in> set (get_neighbors g c) \<Longrightarrow> in_bounds g n"
  by (auto simp: get_neighbors_def in_bounds_def)

lemma least_in: "least e xs \<in> set (e # xs)"
  by (induction xs arbitrary: e) (auto split: if_splits)

lemma heap_min_in: "h \<noteq> [] \<Longrightarrow> heap_min h \<in> set h"
  using least_in [of "hd h" "tl h"] by (cases h) (auto simp: heap_min_def)

lemma relax_frame:
  assumes "relax s c n = Inr s'"
  shows "closed_set s' = closed_set s" "grid s' = grid s" "start s' = start s" "goal s' = goal s"
    "open_nodes s' \<subseteq> insert n (open_nodes s)"
  using assms
  by (auto simp: relax_def Let_def heappush_def open_nodes_def split: if_splits option.splits)

lemma explore_frame:
  assumes "explore s c ns = Inr s'"
  shows "closed_set s' = closed_set s \<and> grid s' = grid s \<and> start s' = start s \<and> goal s' = goal s
    \<and> open_nodes s' \<subseteq> set ns \<union> open_nodes s"
  using assms
proof (induction ns arbitrary: s)
  case Nil
  then show ?case by simp
next
  case (Cons n ns)
  from Cons.prems obtain s1 where r: "relax s c n = Inr s1" and e: "explore s1 c ns = Inr s'"
    by (auto split: sum.splits)
  from Cons.IH [OF e] relax_frame [OF r] show ?case by (simp, blast)
qed

lemma finite_frontier: "finite (frontier s)"
  by (simp add: frontier_def finite_cells open_nodes_def)

lemma loop_body_decreases:
  assumes ne: "open_set s \<noteq> []" and step: "loop_body s = Continue s'"
  shows "(s', s) \<in> loop_measure"
proof -
  obtain cf cur where hm: "heap_min (open_set s) = (cf, cur)" by (cases "heap_min (open_set s)")
  define h where "h = remove1 (cf, cur) (open_set s)"
  have mem: "(cf, cur) \<in> set (open_set s)" using heap_min_in [OF ne] hm by simp
  have len: "length h < length (open_set s)"
    using mem by (simp add: h_def length_remove1) (cases "open_set s", auto)
  have sub: "snd ` set h \<subseteq> open_nodes s"
    unfolding h_def open_nodes_def using set_remove1_subset [of "(cf, cur)" "open_set s"] by blast
  define s1 where "s1 = s\<lparr> open_set := h, open_set_hash := open_set_hash s - {cur} \<rparr>"
  show ?thesis
  proof (cases "cur \<in> closed_set s")
    case True
    with step hm have s': "s' = s1"
      by (auto simp: loop_body_def heappop_def Let_def h_def s1_def split: if_splits)
    have "open_nodes s' = snd ` set h" by (simp add: s' s1_def open_nodes_def)
    then have "frontier s' \<subseteq> frontier s" using sub by (auto simp: s' s1_def frontier_def)
    then have "card (frontier s') \<le> card (frontier s)"
      by (rule card_mono [OF finite_frontier])
    with len show ?thesis by (auto simp: loop_measure_def s' s1_def)
  next
    case False
    define s2 where "s2 = s1\<lparr> closed_set := insert cur (closed_set s1) \<rparr>"
    from step hm False have ex: "explore s2 cur (get_neighbors (grid s2) cur) = Inr s'"
      by (auto simp: loop_body_def heappop_def Let_def h_def s1_def s2_def
          split: if_splits sum.splits option.splits)
    from explore_frame [OF ex]
    have fr: "closed_set s' = insert cur (closed_set s)" "grid s' = grid s"
      "open_nodes s' \<subseteq> set (get_neighbors (grid s) cur) \<union> snd ` set h"
      by (simp_all add: s2_def s1_def open_nodes_def)
    have nb: "set (get_neighbors (grid s) cur) \<subseteq> cells (grid s)"
      using get_neighbors_in_bounds [of _ "grid s" cur] unfolding cells_def by blast
    have "frontier s' \<subseteq> frontier s - {cur}"
      unfolding frontier_def fr(1,2) using fr(3) sub nb by blast
    moreover have "cur \<in> open_nodes s" using mem by (force simp: open_nodes_def)
    then have "cur \<in> frontier s" using False by (simp add: frontier_def)
    ultimately have "frontier s' \<subset> frontier s" by auto
    then have "card (frontier s') < card (frontier s)"
      by (rule psubset_card_mono [OF finite_frontier])
    then show ?thesis by (auto simp: loop_measure_def)
  qed
qed

section \<open>What the search maintains\<close>

lemma relax_preserves:
  assumes h: "hash_ok s" and t: "tree_ok s"
    and st: "start s \<in> closed_set s" and cur: "cur \<in> closed_set s"
    and gc: "cur \<in> dom (g_score s)"
    and nb: "n \<in> set (get_neighbors (grid s) cur)"
  shows "\<exists>s'. relax s cur n = Inr s' \<and> hash_ok s' \<and> tree_ok s' \<and> cur \<in> dom (g_score s')"
proof (cases "n \<in> closed_set s")
  case True
  then have "relax s cur n = Inr s" by (simp add: relax_def)
  with h t gc show ?thesis by simp
next
  case False
  from gc obtain gv where gv: "g_score s cur = Some gv" by auto
  define tg where "tg = fl_add gv (movement_cost cur n)"
  define f where "f = fl_add tg (heuristic n (goal s))"
  define s1 where "s1 = s\<lparr> came_from := (came_from s)(n \<mapsto> cur),
                           g_score := (g_score s)(n \<mapsto> tg),
                           f_score := (f_score s)(n \<mapsto> f) \<rparr>"
  define s2 where "s2 = s1\<lparr> open_set := heappush (open_set s1) (f, n),
                             open_set_hash := insert n (open_set_hash s1) \<rparr>"
  have cases3: "relax s cur n = Inr s \<or> (n \<in> open_set_hash s \<and> relax s cur n = Inr s1)
      \<or> (n \<notin> open_set_hash s \<and> relax s cur n = Inr s2)"
    using False gv by (simp add: relax_def Let_def tg_def f_def s1_def s2_def)
  have neq: "n \<noteq> cur" "n \<noteq> start s" using False cur st by auto
  from t obtain rank :: "cell \<Rightarrow> nat" where
    t1: "start s \<notin> dom (came_from s)"
    and t2: "\<And>m p. came_from s m = Some p \<Longrightarrow>
          p \<in> closed_set s \<and> m \<in> set (get_neighbors (grid s) p) \<and>
          (p = start s \<or> p \<in> dom (came_from s))"
    and t3: "\<And>m. m \<in> closed_set s \<union> open_nodes s \<Longrightarrow> m = start s \<or> m \<in> dom (came_from s)"
    and t4: "\<And>m p. came_from s m = Some p \<Longrightarrow> rank p < rank m"
    unfolding tree_ok_def by blast
  define cf' where "cf' = (came_from s)(n \<mapsto> cur)"
  have d': "dom cf' = insert n (dom (came_from s))" by (simp add: cf'_def)
  have e1: "start s \<notin> dom cf'" using t1 neq by (simp add: d')
  have e2: "p \<in> closed_set s \<and> m \<in> set (get_neighbors (grid s) p) \<and> (p = start s \<or> p \<in> dom cf')"
    if "cf' m = Some p" for m p
  proof (cases "m = n")
    case True
    with that have "p = cur" by (simp add: cf'_def)
    with True cur nb t3 [of cur] show ?thesis by (auto simp: d')
  next
    case False
    with that have "came_from s m = Some p" by (simp add: cf'_def)
    from t2 [OF this] show ?thesis by (auto simp: d')
  qed
  have e4: "\<exists>rank' :: cell \<Rightarrow> nat. \<forall>m p. cf' m = Some p \<longrightarrow> rank' p < rank' m"
  proof (intro exI allI impI)
    fix m p assume a: "cf' m = Some p"
    from e2 [OF a] have pc: "p \<in> closed_set s" by simp
    with False have pn: "p \<noteq> n" by auto
    show "(rank(n := Suc (rank cur))) p < (rank(n := Suc (rank cur))) m"
    proof (cases "m = n")
      case True
      with a have "p = cur" by (simp add: cf'_def)
      with True neq show ?thesis by simp
    next
      case False
      with a have "came_from s m = Some p" by (simp add: cf'_def)
      from t4 [OF this] False pn show ?thesis by simp
    qed
  qed
  have tree1: "tree_ok s1"
    unfolding tree_ok_def
  proof (intro conjI)
    show "start s1 \<notin> dom (came_from s1)" using e1 by (simp add: s1_def cf'_def)
    show "\<forall>m p. came_from s1 m = Some p \<longrightarrow>
        p \<in> closed_set s1 \<and> m \<in> set (get_neighbors (grid s1) p) \<and>
        (p = start s1 \<or> p \<in> dom (came_from s1))"
      using e2 by (simp add: s1_def cf'_def)
    show "\<forall>m \<in> closed_set s1 \<union> open_nodes s1. m = start s1 \<or> m \<in> dom (came_from s1)"
      using t3 by (auto simp: s1_def open_nodes_def)
    show "\<exists>rank :: cell \<Rightarrow> nat. \<forall>m p. came_from s1 m = Some p \<longrightarrow> rank p < rank m"
      using e4 by (simp add: s1_def cf'_def)
  qed
  have tree2: "tree_ok s2"
    unfolding tree_ok_def
  proof (intro conjI)
    show "start s2 \<notin> dom (came_from s2)" using e1 by (simp add: s2_def s1_def cf'_def)
    show "\<forall>m p. came_from s2 m = Some p \<longrightarrow>
        p \<in> closed_set s2 \<and> m \<in> set (get_neighbors (grid s2) p) \<and>
        (p = start s2 \<or> p \<in> dom (came_from s2))"
      using e2 by (simp add: s2_def s1_def cf'_def)
    show "\<forall>m \<in> closed_set s2 \<union> open_nodes s2. m = start s2 \<or> m \<in> dom (came_from s2)"
      using t3 by (auto simp: s2_def s1_def open_nodes_def heappush_def)
    show "\<exists>rank :: cell \<Rightarrow> nat. \<forall>m p. came_from s2 m = Some p \<longrightarrow> rank p < rank m"
      using e4 by (simp add: s2_def s1_def cf'_def)
  qed
  from h have h1: "open_set_hash s = open_nodes s" and h2: "distinct (map snd (open_set s))"
    and h3: "open_nodes s \<subseteq> dom (g_score s)"
    by (simp_all add: hash_ok_def)
  have hash1: "hash_ok s1"
    using h1 h2 h3 by (auto simp: hash_ok_def s1_def open_nodes_def)
  have hash2: "hash_ok s2" if "n \<notin> open_set_hash s"
    using h1 h2 h3 that by (auto simp: hash_ok_def s2_def s1_def open_nodes_def heappush_def)
  have g1: "cur \<in> dom (g_score s1)" "cur \<in> dom (g_score s2)"
    using gc by (simp_all add: s1_def s2_def)
  from cases3 show ?thesis
    using h t gc tree1 tree2 hash1 hash2 g1 by auto
qed

lemma explore_preserves:
  assumes "hash_ok s" and "tree_ok s"
    and "start s \<in> closed_set s" and "cur \<in> closed_set s"
    and "cur \<in> dom (g_score s)"
    and "set ns \<subseteq> set (get_neighbors (grid s) cur)"
  shows "\<exists>s'. explore s cur ns = Inr s' \<and> hash_ok s' \<and> tree_ok s'"
  using assms
proof (induction ns arbitrary: s)
  case Nil
  then show ?case by simp
next
  case (Cons n ns)
  from Cons.prems have "n \<in> set (get_neighbors (grid s) cur)" by simp
  from relax_preserves [OF Cons.prems(1-5) this]
  obtain s1 where r: "relax s cur n = Inr s1" and i1: "hash_ok s1" "tree_ok s1"
    "cur \<in> dom (g_score s1)" by blast
  note fr = relax_frame [OF r]
  have "\<exists>s'. explore s1 cur ns = Inr s' \<and> hash_ok s' \<and> tree_ok s'"
    using Cons.prems i1 fr by (intro Cons.IH) simp_all
  with r show ?case by simp
qed

lemma reconstruct_loop_returns:
  fixes rank :: "cell \<Rightarrow> nat"
  assumes "\<And>n p. cf n = Some p \<Longrightarrow> rank p < rank n"
  shows "\<exists>ch. reconstruct_loop cf c acc = Some (acc @ ch) \<and> chain cf c ch"
proof (induction "rank c" arbitrary: c acc rule: less_induct)
  case less
  show ?case
  proof (cases "cf c")
    case None
    then have "reconstruct_loop cf c acc = Some (acc @ [])"
      by (subst reconstruct_loop.simps) simp
    with None show ?thesis by (intro exI [of _ "[]"]) simp
  next
    case (Some p)
    from assms [OF Some] have "rank p < rank c" .
    from less [OF this, of "acc @ [c]"]
    obtain ch where r: "reconstruct_loop cf p (acc @ [c]) = Some ((acc @ [c]) @ ch)"
      and c: "chain cf p ch" by blast
    have "reconstruct_loop cf c acc = Some (acc @ (c # ch))"
      using Some r by (subst reconstruct_loop.simps) simp
    with Some c show ?thesis by (intro exI [of _ "c # ch"]) simp
  qed
qed

lemma chain_linked:
  assumes "\<And>n p. cf n = Some p \<Longrightarrow> p = st \<or> p \<in> dom cf"
  shows "chain cf c ch \<Longrightarrow> c = st \<or> c \<in> dom cf \<Longrightarrow> st \<notin> dom cf \<Longrightarrow>
    linked cf (ch @ [st]) \<and> hd (ch @ [st]) = c"
proof (induction ch arbitrary: c)
  case Nil
  then show ?case by auto
next
  case (Cons n ns)
  from Cons.prems(1) obtain p where n: "n = c" and p: "cf c = Some p" and ch: "chain cf p ns"
    by auto
  from assms [OF p] have "p = st \<or> p \<in> dom cf" .
  from Cons.IH [OF ch this Cons.prems(3)]
  have l: "linked cf (ns @ [st])" and h: "hd (ns @ [st]) = p" by simp_all
  obtain b rest where br: "ns @ [st] = b # rest" by (cases "ns @ [st]") auto
  with h have "b = p" by simp
  with l br p n show ?case by simp
qed

lemma king_adjacent_sym: "king_adjacent a b \<Longrightarrow> king_adjacent b a"
  by (auto simp: king_adjacent_def)

lemma get_neighbors_iff:
  "n \<in> set (get_neighbors g c) \<longleftrightarrow>
     (\<exists>d \<in> set directions. n = (fst c + fst d, snd c + snd d)) \<and> in_bounds g n \<and> grid_at g n = Inr 0"
  by (auto simp: get_neighbors_def in_bounds_def)

lemma directions_small: "d \<in> set directions \<Longrightarrow> \<bar>fst d\<bar> \<le> 1 \<and> \<bar>snd d\<bar> \<le> 1"
  by (auto simp: directions_def)

lemma get_neighbors_adjacent:
  assumes "n \<in> set (get_neighbors g c)"
  shows "king_adjacent c n"
proof -
  from assms obtain d where d: "d \<in> set directions" and n: "n = (fst c + fst d, snd c + snd d)"
    unfolding get_neighbors_iff by blast
  from directions_small [OF d] show ?thesis by (simp add: king_adjacent_def n)
qed

lemma get_neighbors_passable: "n \<in> set (get_neighbors g c) \<Longrightarrow> passable g n"
  by (auto simp: get_neighbors_def passable_def in_bounds_def)

lemma king_chain_snoc:
  "king_chain (xs @ [a]) \<Longrightarrow> king_adjacent a b \<Longrightarrow> king_chain (xs @ [a, b])"
  by (induction xs rule: king_chain.induct) auto

lemma king_chain_append_single:
  "king_chain xs \<Longrightarrow> (xs \<noteq> [] \<Longrightarrow> king_adjacent (last xs) b) \<Longrightarrow> king_chain (xs @ [b])"
proof (induction xs rule: king_chain.induct)
  case (1 a b' rest)
  then show ?case by auto
qed auto

lemma linked_rev_path:
  "linked cf xs \<Longrightarrow> (\<And>n p. cf n = Some p \<Longrightarrow> n \<in> set (get_neighbors g p)) \<Longrightarrow>
     king_chain (rev xs) \<and> (\<forall>c \<in> set (butlast xs). in_bounds g c \<and> passable g c)"
proof (induction cf xs rule: linked.induct)
  case (1 cf a b rest)
  then have ab: "cf a = Some b" and l: "linked cf (b # rest)" by simp_all
  from "1.IH" [OF l "1.prems"(2)] have ih: "king_chain (rev (b # rest))"
    "\<forall>c \<in> set (butlast (b # rest)). in_bounds g c \<and> passable g c" by simp_all
  from "1.prems"(2) [OF ab] have nb: "a \<in> set (get_neighbors g b)" .
  have adj: "king_adjacent b a" by (rule get_neighbors_adjacent [OF nb])
  have "king_chain (rev (b # rest) @ [a])"
    by (rule king_chain_append_single [OF ih(1)]) (use adj in simp)
  moreover have "in_bounds g a \<and> passable g a"
    using nb get_neighbors_in_bounds get_neighbors_passable by blast
  ultimately show ?case using ih(2) by simp
qed simp_all

lemma reconstruct_path_good:
  assumes t: "tree_ok s" and g: "goal s \<in> closed_set s"
  shows "\<exists>p. reconstruct_path s = Some p \<and> good_path s p"
proof -
  from t obtain rank :: "cell \<Rightarrow> nat" where
    t1: "start s \<notin> dom (came_from s)"
    and t2: "\<And>m p. came_from s m = Some p \<Longrightarrow>
          p \<in> closed_set s \<and> m \<in> set (get_neighbors (grid s) p) \<and>
          (p = start s \<or> p \<in> dom (came_from s))"
    and t3: "\<And>m. m \<in> closed_set s \<union> open_nodes s \<Longrightarrow> m = start s \<or> m \<in> dom (came_from s)"
    and t4: "\<And>m p. came_from s m = Some p \<Longrightarrow> rank p < rank m"
    unfolding tree_ok_def by blast
  from reconstruct_loop_returns [of "came_from s" rank "goal s" "[]", OF t4]
  obtain ch where r: "reconstruct_loop (came_from s) (goal s) [] = Some ch"
    and c: "chain (came_from s) (goal s) ch" by auto
  have gs: "goal s = start s \<or> goal s \<in> dom (came_from s)" using t3 g by simp
  have "linked (came_from s) (ch @ [start s]) \<and> hd (ch @ [start s]) = goal s"
    by (rule chain_linked [OF _ c gs t1]) (use t2 in blast)
  then have l: "linked (came_from s) (ch @ [start s])" and h: "hd (ch @ [start s]) = goal s"
    by simp_all
  have "king_chain (rev (ch @ [start s])) \<and>
      (\<forall>c \<in> set (butlast (ch @ [start s])). in_bounds (grid s) c \<and> passable (grid s) c)"
    by (rule linked_rev_path [OF l]) (use t2 in blast)
  then have k: "king_chain (rev (ch @ [start s]))"
    and b: "\<forall>c \<in> set ch. in_bounds (grid s) c \<and> passable (grid s) c" by simp_all
  define p where "p = rev (ch @ [start s])"
  have rp: "reconstruct_path s = Some p" by (simp add: reconstruct_path_def r p_def)
  have "last p = hd (ch @ [start s])" unfolding p_def by (simp only: last_rev)
  with h have lp: "last p = goal s" by simp
  have "good_path s p"
    using k b lp by (simp add: good_path_def p_def)
  with rp show ?thesis by blast
qed

lemma remove1_nodes:
  assumes "distinct (map snd xs)" and "e \<in> set xs"
  shows "snd ` set (remove1 e xs) = snd ` set xs - {snd e}"
  using assms
proof (induction xs)
  case Nil
  then show ?case by simp
next
  case (Cons a xs)
  show ?case
  proof (cases "a = e")
    case True
    with Cons.prems show ?thesis by (auto simp: image_iff)
  next
    case False
    with Cons.prems have e: "e \<in> set xs" and d: "distinct (map snd xs)"
      and a: "snd a \<notin> snd ` set xs" by auto
    from e a have "snd a \<noteq> snd e" by force
    with Cons.IH [OF d e] False show ?thesis by auto
  qed
qed

lemma distinct_remove1_nodes:
  "distinct (map snd xs) \<Longrightarrow> distinct (map snd (remove1 e xs))"
proof (induction xs)
  case Nil
  then show ?case by simp
next
  case (Cons a xs)
  have "snd ` set (remove1 e xs) \<subseteq> snd ` set xs"
    using set_remove1_subset [of e xs] by blast
  with Cons show ?case by auto
qed

lemma loop_body_step:
  assumes h: "hash_ok s" and t: "tree_ok s" and b: "begun s" and ne: "open_set s \<noteq> []"
  shows "(\<exists>s'. loop_body s = Continue s' \<and> hash_ok s' \<and> tree_ok s' \<and> begun s' \<and>
            grid s' = grid s \<and> start s' = start s \<and> goal s' = goal s) \<or>
         (\<exists>p. loop_body s = Finished (Some (Inr (Some p))) \<and> good_path s p)"
proof -
  obtain cf cur where hm: "heap_min (open_set s) = (cf, cur)" by (cases "heap_min (open_set s)")
  have mem: "(cf, cur) \<in> set (open_set s)" using heap_min_in [OF ne] hm by simp
  then have cur_open: "cur \<in> open_nodes s" by (force simp: open_nodes_def)
  from h have h1: "open_set_hash s = open_nodes s" and h2: "distinct (map snd (open_set s))"
    and h3: "open_nodes s \<subseteq> dom (g_score s)"
    by (simp_all add: hash_ok_def)
  define hp where "hp = remove1 (cf, cur) (open_set s)"
  define s1 where "s1 = s\<lparr> open_set := hp, open_set_hash := open_set_hash s - {cur} \<rparr>"
  have nodes1: "open_nodes s1 = open_nodes s - {cur}"
    using remove1_nodes [OF h2 mem] by (simp add: s1_def hp_def open_nodes_def)
  have hash1: "hash_ok s1"
    unfolding hash_ok_def
  proof (intro conjI)
    show "open_set_hash s1 = open_nodes s1" using nodes1 h1 by (simp add: s1_def)
    show "distinct (map snd (open_set s1))"
      using distinct_remove1_nodes [OF h2] by (simp add: s1_def hp_def)
    show "open_nodes s1 \<subseteq> dom (g_score s1)" using nodes1 h3 by (auto simp: s1_def)
  qed
  have same1: "start s1 = start s" "came_from s1 = came_from s" "closed_set s1 = closed_set s"
    "grid s1 = grid s" by (simp_all add: s1_def)
  from t have tree1: "tree_ok s1"
    unfolding tree_ok_def same1 nodes1 by blast
  define s2 where "s2 = s1\<lparr> closed_set := insert cur (closed_set s1) \<rparr>"
  have unfold: "loop_body s =
     (if cur \<in> closed_set s then Continue s1
      else
        if cur = goal s then
          Finished (case reconstruct_path s2 of None \<Rightarrow> None | Some p \<Rightarrow> Some (Inr (Some p)))
        else (case explore s2 cur (get_neighbors (grid s2) cur) of
                Inl e \<Rightarrow> Finished (Some (Inl e))
              | Inr s3 \<Rightarrow> Continue s3))"
    using cur_open h1 hm by (simp add: loop_body_def heappop_def s2_def s1_def hp_def Let_def)
  show ?thesis
  proof (cases "cur \<in> closed_set s")
    case True
    then have lb: "loop_body s = Continue s1" using unfold by simp
    have "begun s1" using b nodes1 by (auto simp: begun_def s1_def)
    with lb hash1 tree1 show ?thesis by (simp add: s1_def)
  next
    case False
    have fields2: "grid s2 = grid s" "start s2 = start s" "goal s2 = goal s"
      "closed_set s2 = insert cur (closed_set s)" "open_nodes s2 = open_nodes s1"
      "g_score s2 = g_score s" "came_from s2 = came_from s"
      by (simp_all add: s2_def s1_def open_nodes_def)
    have hash2: "hash_ok s2" using hash1 by (simp add: hash_ok_def s2_def open_nodes_def)
    have st2: "start s2 \<in> closed_set s2"
      using b cur_open by (auto simp: begun_def fields2)
    have tree2: "tree_ok s2"
      using t cur_open nodes1 unfolding tree_ok_def fields2 by auto
    have cg: "cur \<in> dom (g_score s2)" using h3 cur_open by (auto simp: fields2)
    have c2: "cur \<in> closed_set s2" by (simp add: fields2)
    show ?thesis
    proof (cases "cur = goal s")
      case True
      then have "goal s2 \<in> closed_set s2" by (simp add: fields2)
      from reconstruct_path_good [OF tree2 this]
      obtain p where rp: "reconstruct_path s2 = Some p" and gp: "good_path s2 p" by blast
      have "loop_body s = Finished (Some (Inr (Some p)))"
        using unfold False True rp by simp
      moreover have "good_path s p" using gp by (simp add: good_path_def fields2)
      ultimately show ?thesis by blast
    next
      case ng: False
      from explore_preserves [OF hash2 tree2 st2 c2 cg subset_refl]
      obtain s3 where ex: "explore s2 cur (get_neighbors (grid s2) cur) = Inr s3"
        and i3: "hash_ok s3" "tree_ok s3" by blast
      have lb: "loop_body s = Continue s3"
        using unfold False ng ex fields2 by simp
      from explore_frame [OF ex]
      have fr: "closed_set s3 = closed_set s2" "grid s3 = grid s2" "start s3 = start s2"
        "goal s3 = goal s2" by simp_all
      have "begun s3" using st2 by (simp add: begun_def fr)
      with lb i3 fr fields2 show ?thesis by simp
    qed
  qed
qed

lemma wf_loop_measure: "wf loop_measure"
  unfolding loop_measure_def by (intro wf_inv_image wf_lex_prod wf_less_than)

lemma find_loop_total:
  "hash_ok s \<Longrightarrow> tree_ok s \<Longrightarrow> begun s \<Longrightarrow>
     \<exists>r. find_loop s = Some (Inr r) \<and> (\<forall>p. r = Some p \<longrightarrow> good_path s p)"
proof (induction s rule: wf_induct_rule [OF wf_loop_measure])
  case (1 s)
  show ?case
  proof (cases "open_set s = []")
    case True
    then show ?thesis by (subst find_loop.simps) simp
  next
    case False
    from loop_body_step [OF "1.prems" False]
    show ?thesis
    proof (elim disjE exE conjE)
      fix s'
      assume lb: "loop_body s = Continue s'" and i: "hash_ok s'" "tree_ok s'" "begun s'"
        and fr: "grid s' = grid s" "start s' = start s" "goal s' = goal s"
      have "(s', s) \<in> loop_measure" by (rule loop_body_decreases [OF False lb])
      from "1.IH" [OF this i]
      obtain r where r: "find_loop s' = Some (Inr r)" and g: "\<forall>p. r = Some p \<longrightarrow> good_path s' p"
        by blast
      have "find_loop s = Some (Inr r)" using False lb r by (subst find_loop.simps) simp
      moreover have "\<forall>p. r = Some p \<longrightarrow> good_path s p" using g by (simp add: good_path_def fr)
      ultimately show ?thesis by blast
    next
      fix p
      assume lb: "loop_body s = Finished (Some (Inr (Some p)))" and g: "good_path s p"
      have "find_loop s = Some (Inr (Some p))" using False lb by (subst find_loop.simps) simp
      with g show ?thesis by simp
    qed
  qed
qed

lemma astar_init_ok:
  "hash_ok (astar_init st gl g) \<and> tree_ok (astar_init st gl g) \<and> begun (astar_init st gl g)"
  by (simp add: hash_ok_def tree_ok_def begun_def astar_init_def open_nodes_def heappush_def)

lemma find_shortest_path_cases:
  "find_shortest_path st gl g = Some (Inl IndexError) \<and>
     (grid_at g st = Inl IndexError \<or> grid_at g gl = Inl IndexError) \<or>
   find_shortest_path st gl g = Some (Inr None) \<or>
   (\<exists>p. find_shortest_path st gl g = Some (Inr (Some p)) \<and>
        grid_at g st = Inr 0 \<and> grid_at g gl = Inr 0 \<and> good_path (astar_init st gl g) p)"
proof -
  from astar_init_ok [of st gl g] find_loop_total [of "astar_init st gl g"]
  obtain r where r: "find_loop (astar_init st gl g) = Some (Inr r)"
    and g: "\<forall>p. r = Some p \<longrightarrow> good_path (astar_init st gl g) p" by blast
  have f: "grid (astar_init st gl g) = g" "start (astar_init st gl g) = st"
    "goal (astar_init st gl g) = gl" by (simp_all add: astar_init_def)
  have e: "grid_at g c = Inl e \<Longrightarrow> e = IndexError" for c e
    by (auto simp: grid_at_def np_index_def split: if_splits sum.splits)
  show ?thesis
  proof (cases "grid_at g st")
    case (Inl e)
    with e [OF Inl] show ?thesis by (simp add: find_shortest_path_def find_path_def f)
  next
    case v: (Inr v)
    show ?thesis
    proof (cases "v = 0")
      case False
      with v show ?thesis by (simp add: find_shortest_path_def find_path_def f)
    next
      case v0: True
      show ?thesis
      proof (cases "grid_at g gl")
        case (Inl e)
        with e [OF Inl] v v0 show ?thesis by (simp add: find_shortest_path_def find_path_def f)
      next
        case w: (Inr w)
        show ?thesis
        proof (cases "w = 0")
          case False
          with v v0 w show ?thesis by (simp add: find_shortest_path_def find_path_def f)
        next
          case True
          with v v0 w r have "find_shortest_path st gl g = Some (Inr r)"
            by (simp add: find_shortest_path_def find_path_def f)
          with g v v0 w True show ?thesis by (cases r) auto
        qed
      qed
    qed
  qed
qed

section \<open>What the scan over the bins selects\<close>

lemma scan_bins_result:
  assumes "scan_bins pos g bs acc = Some (Inr acc')"
  shows "(acc' = acc \<and>
      (\<forall>c \<in> set bs. \<forall>q. find_shortest_path pos (y c, x c) g = Some (Inr (Some q)) \<longrightarrow>
         \<not> enat (length q) < snd (snd acc))) \<or>
    (\<exists>pre b post p. bs = pre @ b # post \<and>
      find_shortest_path pos (y b, x b) g = Some (Inr (Some p)) \<and>
      acc' = (Some b, Some p, enat (length p)) \<and> enat (length p) < snd (snd acc) \<and>
      (\<forall>c \<in> set pre. \<forall>q. find_shortest_path pos (y c, x c) g = Some (Inr (Some q)) \<longrightarrow>
         length p < length q) \<and>
      (\<forall>c \<in> set post. \<forall>q. find_shortest_path pos (y c, x c) g = Some (Inr (Some q)) \<longrightarrow>
         length p \<le> length q))"
  using assms
proof (induction bs arbitrary: acc)
  case Nil
  then show ?case by simp
next
  case (Cons c bs)
  obtain cb sp sd where acc: "acc = (cb, sp, sd)" by (cases acc)
  let ?fsp = "\<lambda>c. find_shortest_path pos (y c, x c) g"
  let ?A = "\<lambda>bs acc. acc' = acc \<and>
      (\<forall>c \<in> set bs. \<forall>q. ?fsp c = Some (Inr (Some q)) \<longrightarrow> \<not> enat (length q) < snd (snd acc))"
  let ?B = "\<lambda>bs acc pre b post p. bs = pre @ b # post \<and> ?fsp b = Some (Inr (Some p)) \<and>
      acc' = (Some b, Some p, enat (length p)) \<and> enat (length p) < snd (snd acc) \<and>
      (\<forall>c \<in> set pre. \<forall>q. ?fsp c = Some (Inr (Some q)) \<longrightarrow> length p < length q) \<and>
      (\<forall>c \<in> set post. \<forall>q. ?fsp c = Some (Inr (Some q)) \<longrightarrow> length p \<le> length q)"
  have keep: ?case
    if rec: "scan_bins pos g bs acc = Some (Inr acc')"
      and c: "\<And>q. ?fsp c = Some (Inr (Some q)) \<Longrightarrow> \<not> enat (length q) < sd" 
  proof -
    from Cons.IH [OF rec] consider (a) "?A bs acc" | (b) pre b post p where "?B bs acc pre b post p"
      by blast
    then show ?thesis
    proof cases
      case a
      with c acc show ?thesis by auto
    next
      case b
      have "length p < length q" if "?fsp c = Some (Inr (Some q))" for q
      proof -
        from c [OF that] have "sd \<le> enat (length q)" by simp
        moreover from b acc have "enat (length p) < sd" by simp
        ultimately show ?thesis by (metis enat_ord_simps(2) order_less_le_trans)
      qed
      with b have "?B (c # bs) acc (c # pre) b post p" by simp
      then show ?thesis by blast
    qed
  qed
  show ?case
  proof (cases "?fsp c")
    case None
    with Cons.prems show ?thesis by simp
  next
    case (Some res)
    show ?thesis
    proof (cases res)
      case (Inl e)
      with Some Cons.prems show ?thesis by simp
    next
      case (Inr r)
      show ?thesis
      proof (cases r)
        case None
        with Some Inr Cons.prems have "scan_bins pos g bs acc = Some (Inr acc')" by simp
        then show ?thesis by (rule keep) (simp add: Some Inr None)
      next
        case (Some path)
        note fc = \<open>?fsp c = Some res\<close> [unfolded Inr Some]
        show ?thesis
        proof (cases "enat (length path) < sd")
          case False
          with fc Cons.prems acc have "scan_bins pos g bs acc = Some (Inr acc')" by simp
          then show ?thesis by (rule keep) (use fc False in simp)
        next
          case True
          define acc1 :: best where "acc1 = (Some c, Some path, enat (length path))"
          from fc Cons.prems acc True have rec: "scan_bins pos g bs acc1 = Some (Inr acc')"
            by (simp add: acc1_def)
          from Cons.IH [OF rec] consider (a) "?A bs acc1" | (b) pre b post p where "?B bs acc1 pre b post p"
            by blast
          then show ?thesis
          proof cases
            case a
            then have "\<forall>c \<in> set bs. \<forall>q. ?fsp c = Some (Inr (Some q)) \<longrightarrow> length path \<le> length q"
              by (auto simp: acc1_def)
            with a fc True acc have "?B (c # bs) acc [] c bs path" by (simp add: acc1_def)
            then show ?thesis by blast
          next
            case b
            then have lt: "length p < length path" by (simp add: acc1_def)
            with True have "enat (length p) < sd"
              by (metis enat_ord_simps(2) order_less_trans)
            with b lt fc acc have "?B (c # bs) acc (c # pre) b post p" by simp
            then show ?thesis by blast
          qed
        qed
      qed
    qed
  qed
qed

lemma find_closest_bin_result:
  assumes "find_closest_bin d bins g = Some (Inr (d', r))"
  shows "(r = None \<and> d' = d \<and>
      (\<forall>c \<in> set bins. \<forall>q. find_shortest_path (y d, x d) (y c, x c) g \<noteq> Some (Inr (Some q)))) \<or>
    (\<exists>pre b post p. r = Some b \<and> bins = pre @ b # post \<and>
      find_shortest_path (y d, x d) (y b, x b) g = Some (Inr (Some p)) \<and>
      d' = d\<lparr> assigned_bin := Some (number b), path_to_bin := Some p \<rparr> \<and>
      (\<forall>c \<in> set pre. \<forall>q. find_shortest_path (y d, x d) (y c, x c) g = Some (Inr (Some q)) \<longrightarrow>
         length p < length q) \<and>
      (\<forall>c \<in> set post. \<forall>q. find_shortest_path (y d, x d) (y c, x c) g = Some (Inr (Some q)) \<longrightarrow>
         length p \<le> length q))"
proof (cases "bins = []")
  case True
  with assms show ?thesis by (simp add: find_closest_bin_def)
next
  case False
  from assms False obtain acc' where
    sc: "scan_bins (y d, x d) g bins (None, None, \<infinity>) = Some (Inr acc')"
    by (auto simp: find_closest_bin_def split: option.splits sum.splits)
  from scan_bins_result [OF sc] show ?thesis
  proof (elim disjE exE conjE)
    assume a: "acc' = (None, None, \<infinity>)"
      and n: "\<forall>c \<in> set bins. \<forall>q. find_shortest_path (y d, x d) (y c, x c) g = Some (Inr (Some q)) \<longrightarrow>
         \<not> enat (length q) < snd (snd (None :: entity option, None :: cell list option, \<infinity> :: enat))"
    from assms False sc a have "r = None \<and> d' = d" by (simp add: find_closest_bin_def)
    with n show ?thesis by simp
  next
    fix pre b post p
    assume b: "bins = pre @ b # post"
      "find_shortest_path (y d, x d) (y b, x b) g = Some (Inr (Some p))"
      "acc' = (Some b, Some p, enat (length p))"
      "\<forall>c \<in> set pre. \<forall>q. find_shortest_path (y d, x d) (y c, x c) g = Some (Inr (Some q)) \<longrightarrow>
         length p < length q"
      "\<forall>c \<in> set post. \<forall>q. find_shortest_path (y d, x d) (y c, x c) g = Some (Inr (Some q)) \<longrightarrow>
         length p \<le> length q"
    from assms False sc b(3)
    have "r = Some b \<and> d' = d\<lparr> assigned_bin := Some (number b), path_to_bin := Some p \<rparr>"
      by (simp add: find_closest_bin_def)
    with b show ?thesis by blast
  qed
qed



section \<open>The returned path need not be the cheapest\<close>

lemma three_roots_of_two: "4 < 3 * sqrt 2"
proof -
  have "4 / 3 < sqrt 2" by (rule real_less_rsqrt) (simp add: power2_eq_square)
  then show ?thesis by simp
qed

text \<open>
  C1. The search updates the g-score and the parent of a cell that is already in the open
  set, but pushes no new entry for it (the push is guarded by \<open>open_set_hash\<close>), so the cell
  keeps the priority of its first, worse discovery. On the grid below, from (3, 0) to
  (0, 4), the cell (1, 0) is first reached diagonally from (2, 1) at cost \<open>2 * sqrt 2\<close> and
  then along the column from (2, 0) at cost 2; with its stale priority it is still in the
  open set when the goal is popped. The returned path has four diagonal steps and one
  straight step, while the walkable path up the first column and along the first row has
  one diagonal step and five straight ones and is cheaper.
\<close>

theorem find_path_not_cheapest:
  "find_shortest_path (3, 0) (0, 4) detour_grid
     = Some (Inr (Some [(3, 0), (2, 1), (3, 2), (2, 3), (1, 4), (0, 4)])) \<and>
   walkable detour_grid [(3, 0), (2, 0), (1, 0), (0, 1), (0, 2), (0, 3), (0, 4)] \<and>
   path_cost [(3, 0), (2, 0), (1, 0), (0, 1), (0, 2), (0, 3), (0, 4)]
     < path_cost [(3, 0), (2, 1), (3, 2), (2, 3), (1, 4), (0, 4)]"
proof (intro conjI)
  show "find_shortest_path (3, 0) (0, 4) detour_grid
     = Some (Inr (Some [(3, 0), (2, 1), (3, 2), (2, 3), (1, 4), (0, 4)]))"
    unfolding detour_grid_def by (rule run_detour)
  show "walkable detour_grid [(3, 0), (2, 0), (1, 0), (0, 1), (0, 2), (0, 3), (0, 4)]"
    by (simp add: walkable_def detour_grid_def in_bounds_def passable_def king_adjacent_def
        grid_at_def np_index_def rows_def cols_def)
  show "path_cost [(3, 0), (2, 0), (1, 0), (0, 1), (0, 2), (0, 3), (0, 4)]
     < path_cost [(3, 0), (2, 1), (3, 2), (2, 3), (1, 4), (0, 4)]"
    using three_roots_of_two by (simp add: step_cost_def)
qed

theorem find_path_not_cheapest_witness:
  "find_shortest_path (3, 0) (0, 4) detour_grid
     = Some (Inr (Some [(3, 0), (2, 1), (3, 2), (2, 3), (1, 4), (0, 4)])) \<and>
   in_bounds detour_grid (2, 0) \<and> passable detour_grid (2, 0) \<and>
   in_bounds detour_grid (1, 0) \<and> passable detour_grid (1, 0) \<and>
   in_bounds detour_grid (0, 1) \<and> passable detour_grid (0, 1) \<and>
   in_bounds detour_grid (0, 2) \<and> passable detour_grid (0, 2) \<and>
   in_bounds detour_grid (0, 3) \<and> passable detour_grid (0, 3) \<and>
   5 + sqrt 2 < 1 + 4 * sqrt 2"
  using find_path_not_cheapest by (simp add: walkable_def step_cost_def)

section \<open>The closest bin is the one with the fewest cells on its path\<close>


text \<open>
  Two doors at (0, 0). On the open 2 x 2 grid the bins at (0, 1) and (1, 0) both have paths
  of two cells, and the first is chosen. On the second grid the bin at the end of the first
  row is reached in five cells at cost 4, the bin on the diagonal in four cells at cost
  \<open>3 * sqrt 2\<close>, which is more; the bin on the diagonal is chosen.
\<close>

lemma tie_resolved:
  "find_closest_bin (Door 1 0 0) [bin_at 1 (0, 1), bin_at 2 (1, 0)] [[0, 0], [0, 0]]
     = Some (Inr ((Door 1 0 0)\<lparr> assigned_bin := Some 1, path_to_bin := Some [(0, 0), (0, 1)] \<rparr>,
                  Some (bin_at 1 (0, 1))))"
  by (simp add: find_closest_bin_def Door_def bin_at_def run_tie_right run_tie_down)



section \<open>Returned paths and the bounds of the grid\<close>

lemma good_path_cells:
  assumes "good_path s p" and "passable (grid s) (start s)"
  shows "\<forall>c \<in> set p. passable (grid s) c"
proof -
  from assms(1) have "p = start s # tl p" by (cases p) (simp_all add: good_path_def)
  then have "set p = insert (start s) (set (tl p))" by (metis list.simps(15))
  with assms show ?thesis by (simp add: good_path_def)
qed

text \<open>
  What holds of every returned path: it starts at the start cell, ends at the goal cell
  and moves by king steps; the array read at the start gives 0; every cell after the first
  is passable; and the first cell is passable when the start lies within the bounds of the
  grid.
\<close>

lemma returned_path_facts:
  assumes "find_shortest_path st gl g = Some (Inr (Some p))"
  shows "p \<noteq> [] \<and> hd p = st \<and> last p = gl \<and> king_chain p \<and> grid_at g st = Inr 0 \<and>
    (\<forall>c \<in> set (tl p). passable g c) \<and> (in_bounds g st \<longrightarrow> (\<forall>c \<in> set p. passable g c))"
proof -
  have f: "grid (astar_init st gl g) = g" "start (astar_init st gl g) = st"
    "goal (astar_init st gl g) = gl" by (simp_all add: astar_init_def)
  from find_shortest_path_cases [of st gl g] assms
  have gs: "grid_at g st = Inr 0" and gp: "good_path (astar_init st gl g) p" by auto
  from gp have ne: "p \<noteq> []" and h: "hd p = st" and l: "last p = gl" and k: "king_chain p"
    and t: "\<forall>c \<in> set (tl p). passable g c"
    by (simp_all add: good_path_def f)
  have "\<forall>c \<in> set p. passable g c" if "in_bounds g st"
  proof -
    from that gs have "passable (grid (astar_init st gl g)) (start (astar_init st gl g))"
      by (simp add: passable_def f)
    from good_path_cells [OF gp this] show ?thesis by (simp add: f)
  qed
  with ne h l k t gs show ?thesis by blast
qed

text \<open>
  C3. The start and the goal are tested by reading the array at the coordinates as they are
  given, with no test of the bounds. With the start at row -1 of a grid of two rows numpy
  reads row 1, which holds 0, and the search returns a path that begins at (-1, 0): a cell
  outside the grid, which is not passable.
\<close>

theorem returned_path_leaves_grid:
  "find_shortest_path (- 1, 0) (0, 0) [[0], [0]] = Some (Inr (Some [(- 1, 0), (0, 0)])) \<and>
   grid_at [[0], [0]] (- 1, 0) = Inr 0 \<and>
   \<not> passable [[0], [0]] (- 1, 0)"
  using run_wrap
  by (simp add: passable_def in_bounds_def grid_at_def np_index_def rows_def cols_def)

section \<open>Assigned bin and path of a door\<close>

lemma door_inv_mono: "door_inv B d \<Longrightarrow> B \<subseteq> B' \<Longrightarrow> door_inv B' d"
  unfolding door_inv_def by blast

lemma find_closest_bin_inv:
  assumes "find_closest_bin d bins g = Some (Inr (d', r))" and "door_inv B d"
  shows "door_inv (set bins \<union> B) d' \<and> x d' = x d \<and> y d' = y d"
proof -
  from find_closest_bin_result [OF assms(1)] show ?thesis
  proof (elim disjE exE conjE)
    assume "d' = d"
    with assms(2) door_inv_mono [of B d "set bins \<union> B"] show ?thesis by simp
  next
    fix pre b post p
    assume b: "bins = pre @ b # post"
      and f: "find_shortest_path (y d, x d) (y b, x b) g = Some (Inr (Some p))"
      and d': "d' = d\<lparr> assigned_bin := Some (number b), path_to_bin := Some p \<rparr>"
    from returned_path_facts [OF f] have "p \<noteq> [] \<and> hd p = (y d, x d) \<and> last p = (y b, x b)"
      by simp
    moreover from b have "b \<in> set bins \<union> B" by simp
    ultimately have "door_inv (set bins \<union> B) d'"
      unfolding door_inv_def d' by (intro disjI2 exI [of _ b] exI [of _ p]) simp
    then show ?thesis by (simp add: d')
  qed
qed

lemma apply_ops_inv:
  "apply_ops d ops = Some d' \<Longrightarrow> door_inv B d \<Longrightarrow> \<forall>op \<in> set ops. \<not> is_assign op \<Longrightarrow>
     door_inv (B \<union> bins_of ops) d'"
proof (induction ops arbitrary: d B)
  case Nil
  then show ?case by simp
next
  case (Cons op ops)
  from Cons.prems(1) obtain d1 where s1: "apply_op d op = Some d1" and r: "apply_ops d1 ops = Some d'"
    by (auto split: option.splits)
  from Cons.prems(3) have na: "\<not> is_assign op" and rest: "\<forall>op \<in> set ops. \<not> is_assign op" by simp_all
  have "door_inv (B \<union> bins_of [op]) d1"
  proof (cases op)
    case (AssignBin b)
    with na show ?thesis by simp
  next
    case (FindClosestBin bins g)
    show ?thesis
    proof (cases "find_closest_bin d bins g")
      case None
      with s1 FindClosestBin show ?thesis by simp
    next
      case (Some res)
      show ?thesis
      proof (cases res)
        case (Inl e)
        with Some s1 FindClosestBin have "d1 = d" by simp
        with Cons.prems(2) door_inv_mono [of B d] show ?thesis by blast
      next
        case (Inr dr)
        obtain d2 r where dr: "dr = (d2, r)" by (cases dr)
        with Some Inr s1 FindClosestBin have "d1 = d2" by simp
        with find_closest_bin_inv [OF Some [unfolded Inr dr] Cons.prems(2)] FindClosestBin
        show ?thesis by (simp add: Un_commute)
      qed
    qed
  next
    case GetPathToBin
    with s1 Cons.prems(2) show ?thesis by simp
  qed
  from Cons.IH [OF r this rest] have "door_inv (B \<union> bins_of [op] \<union> bins_of ops) d'" .
  moreover have "B \<union> bins_of [op] \<union> bins_of ops = B \<union> bins_of (op # ops)"
    by (cases op) auto
  ultimately show ?case by simp
qed

lemma find_closest_bin_no_bins_at: "find_closest_bin d [] g = Some (Inr (d, None))"
  by (simp add: find_closest_bin_def)

text \<open>
  C4. On a door as constructed, after any sequence of calls of \<open>find_closest_bin\<close> and
  \<open>get_path_to_bin\<close> (none of \<open>assign_bin\<close>), either both \<open>assigned_bin\<close> and \<open>path_to_bin\<close> are
  absent, or both are present, the path is not empty, it starts at the door's cell and it
  ends at the cell of a bin that was passed to \<open>find_closest_bin\<close> and has the assigned
  number.
\<close>

theorem door_assignment_invariant:
  assumes "apply_ops (Door n px py) ops = Some d" and "\<forall>op \<in> set ops. \<not> is_assign op"
  shows "(assigned_bin d = None \<and> path_to_bin d = None) \<or>
     (\<exists>b p. b \<in> bins_of ops \<and> assigned_bin d = Some (number b) \<and> path_to_bin d = Some p \<and>
        p \<noteq> [] \<and> hd p = (y d, x d) \<and> last p = (y b, x b))"
proof -
  have "door_inv {} (Door n px py)" by (simp add: door_inv_def Door_def)
  from apply_ops_inv [OF assms(1) this assms(2)] show ?thesis by (simp add: door_inv_def)
qed

theorem door_assignment_invariant_witness:
  "apply_ops (Door 1 0 0)
      [FindClosestBin [bin_at 1 (0, 1), bin_at 2 (1, 0)] [[0, 0], [0, 0]], GetPathToBin, FindClosestBin [] []]
     = Some ((Door 1 0 0)\<lparr> assigned_bin := Some 1, path_to_bin := Some [(0, 0), (0, 1)] \<rparr>) \<and>
   bin_at 1 (0, 1) \<in> bins_of [FindClosestBin [bin_at 1 (0, 1), bin_at 2 (1, 0)] [[0, 0], [0, 0]],
      GetPathToBin, FindClosestBin [] []] \<and>
   (y (bin_at 1 (0, 1)), x (bin_at 1 (0, 1))) = (0, 1)"
proof -
  have a: "apply_ops (Door 1 0 0)
      [FindClosestBin [bin_at 1 (0, 1), bin_at 2 (1, 0)] [[0, 0], [0, 0]], GetPathToBin, FindClosestBin [] []]
     = Some ((Door 1 0 0)\<lparr> assigned_bin := Some 1, path_to_bin := Some [(0, 0), (0, 1)] \<rparr>)"
    by (simp add: tie_resolved get_path_to_bin_def find_closest_bin_no_bins_at)
  have b: "\<forall>op \<in> set [FindClosestBin [bin_at 1 (0, 1), bin_at 2 (1, 0)] [[0, 0], [0, 0]],
      GetPathToBin, FindClosestBin [] []]. \<not> is_assign op" by simp
  from door_assignment_invariant [OF a b] a show ?thesis by (simp add: bin_at_def)
qed

text \<open>
  With \<open>assign_bin\<close> among the operations the statement fails: it sets the number alone.
\<close>

theorem assign_bin_leaves_no_path:
  "apply_ops (Door 1 0 0) [AssignBin (bin_at 7 (3, 4))]
     = Some ((Door 1 0 0)\<lparr> assigned_bin := Some 7 \<rparr>) \<and>
   assigned_bin ((Door 1 0 0)\<lparr> assigned_bin := Some 7 \<rparr>) = Some 7 \<and>
   path_to_bin ((Door 1 0 0)\<lparr> assigned_bin := Some 7 \<rparr>) = None"
  by (simp add: assign_bin_def bin_at_def Door_def)

section \<open>Calling find_closest_bin again\<close>



text \<open>
  A door at (0, 0) in a corridor that is blocked at its third cell: the first call assigns
  the bin at (0, 1); the second call, with only the bin behind the obstacle, finds no path
  and leaves the earlier assignment in place, where the door should be unassigned.
\<close>

lemma first_resolution:
  "find_closest_bin (Door 1 0 0) [bin_at 1 (0, 1)] gap_grid
     = Some (Inr (assigned_door, Some (bin_at 1 (0, 1))))"
  by (simp add: find_closest_bin_def Door_def bin_at_def gap_grid_def assigned_door_def run_gap_near)



section \<open>No path\<close>

lemma grid_at_in_bounds:
  "in_bounds g c \<Longrightarrow> grid_at g c = Inr (g ! nat (fst c) ! nat (snd c))"
  by (simp add: in_bounds_def grid_at_def np_index_def)

text \<open>
  For a start and a goal within the bounds of the grid: when the start is an obstacle, or
  the goal is an obstacle, or no walkable path leads from the start to the goal, the
  search returns Python's \<open>None\<close>; it raises nothing and it does return.
\<close>

lemma no_path_within_bounds:
  assumes "in_bounds g st" and "in_bounds g gl"
    and "\<not> passable g st \<or> \<not> passable g gl \<or> \<not> (\<exists>p. walkable g p \<and> hd p = st \<and> last p = gl)"
  shows "find_shortest_path st gl g = Some (Inr None)"
proof -
  have no_error: "grid_at g st \<noteq> Inl IndexError" "grid_at g gl \<noteq> Inl IndexError"
    using assms(1,2) by (simp_all add: grid_at_in_bounds)
  have "False" if r: "find_shortest_path st gl g = Some (Inr (Some p))" for p
  proof -
    from find_shortest_path_cases [of st gl g] r assms(1,2)
    have ps: "passable g st" "passable g gl" by (auto simp: passable_def)
    from returned_path_facts [OF r] assms(1)
    have "walkable g p \<and> hd p = st \<and> last p = gl" by (auto simp: walkable_def passable_def)
    with ps assms(3) show False by blast
  qed
  with find_shortest_path_cases [of st gl g] no_error show ?thesis by blast
qed

lemma king_chain_confined:
  "king_chain p \<Longrightarrow> p \<noteq> [] \<Longrightarrow> hd p \<in> A \<Longrightarrow> set p \<subseteq> C \<Longrightarrow>
     (\<And>a b. a \<in> A \<Longrightarrow> b \<in> C \<Longrightarrow> king_adjacent a b \<Longrightarrow> b \<in> A) \<Longrightarrow> set p \<subseteq> A"
proof (induction p rule: king_chain.induct)
  case (1 a b rest)
  from "1.prems" have ab: "king_adjacent a b" and k: "king_chain (b # rest)" and a: "a \<in> A"
    and b: "b \<in> C" by simp_all
  from "1.prems"(5) [OF a b ab] have "b \<in> A" .
  with "1.IH" [OF k] "1.prems" have "set (b # rest) \<subseteq> A" by simp
  with a show ?case by simp
qed simp_all

lemma gap_not_crossed:
  "\<not> (\<exists>p. walkable [[0, 0, 1, 0]] p \<and> hd p = (0, 0) \<and> last p = (0, 3))"
proof
  assume "\<exists>p. walkable [[0, 0, 1, 0]] p \<and> hd p = (0, 0) \<and> last p = (0, 3)"
  then obtain p where w: "walkable [[0, 0, 1, 0]] p" and h: "hd p = (0, 0)"
    and l: "last p = (0, 3)" by blast
  define C :: "cell set" where "C = {(0, 0), (0, 1), (0, 3)}"
  define A :: "cell set" where "A = {(0, 0), (0, 1)}"
  have ne: "p \<noteq> []" and k: "king_chain p" using w by (simp_all add: walkable_def)
  have "c \<in> C" if "c \<in> set p" for c
  proof -
    from w that have ib: "in_bounds [[0, 0, 1, 0]] c" and ps: "passable [[0, 0, 1, 0]] c"
      by (simp_all add: walkable_def)
    obtain r k where c: "c = (r, k)" by (cases c)
    from ib have r: "r = 0" and kk: "k = 0 \<or> k = 1 \<or> k = 2 \<or> k = 3"
      by (auto simp: in_bounds_def rows_def cols_def c)
    from kk ps r show ?thesis
      by (auto simp: C_def c passable_def grid_at_def np_index_def rows_def cols_def)
  qed
  then have sub: "set p \<subseteq> C" by blast
  have "set p \<subseteq> A"
    by (rule king_chain_confined [OF k ne _ sub])
      (auto simp: A_def C_def h king_adjacent_def)
  moreover have "last p \<in> set p" using ne by simp
  ultimately show False using l by (auto simp: A_def)
qed

lemma gap_gives_none:
  "in_bounds [[0, 0, 1, 0]] (0, 0) \<and> in_bounds [[0, 0, 1, 0]] (0, 3) \<and>
   \<not> (\<exists>p. walkable [[0, 0, 1, 0]] p \<and> hd p = (0, 0) \<and> last p = (0, 3)) \<and>
   find_shortest_path (0, 0) (0, 3) [[0, 0, 1, 0]] = Some (Inr None)"
proof -
  have a: "in_bounds [[0, 0, 1, 0]] (0, 0)" and b: "in_bounds [[0, 0, 1, 0]] (0, 3)"
    by (simp_all add: in_bounds_def rows_def cols_def)
  from no_path_within_bounds [OF a b] gap_not_crossed a b show ?thesis by blast
qed

text \<open>
  C6. The test of the start and the goal reads the array at the coordinates as they are
  given, with no test of the bounds. On the grid of the single cell 1 the goal (0, 0) is an
  obstacle, and the start (1, 0) lies outside the grid and is impassable for that reason;
  reading the start, the call raises IndexError where it should return \<open>None\<close>.
\<close>

theorem blocked_goal_raises:
  "\<not> passable [[1]] (0, 0) \<and> \<not> passable [[1]] (1, 0) \<and> grid_at [[1]] (1, 0) = Inl IndexError \<and>
   find_shortest_path (1, 0) (0, 0) [[1]] = Some (Inl IndexError)"
  by (simp add: passable_def in_bounds_def find_shortest_path_def find_path_def astar_init_def
      grid_at_def np_index_def rows_def cols_def)

section \<open>The endpoint check reads through a wrapped index\<close>

text \<open>
  C8. Neighbours are generated within bounds only (\<open>get_neighbors_in_bounds\<close>), but the
  check of the start and the goal indexes the array with the coordinates as they are
  given. With the start at row -1 of a grid of two rows numpy reads row 1, finds it
  passable, and the search returns a path whose first cell is outside the grid.
\<close>

theorem endpoint_check_wraps:
  "find_shortest_path (- 1, 0) (0, 0) [[0], [0]] = Some (Inr (Some [(- 1, 0), (0, 0)])) \<and>
   \<not> in_bounds [[0], [0]] (- 1, 0) \<and>
   np_index (rows [[0], [0]]) (- 1) = Inr 1"
  using run_wrap by (simp add: in_bounds_def np_index_def rows_def)

section \<open>The heuristic and the Euclidean distance\<close>

























text \<open>
  Beyond the range of 64-bit integers the difference wraps: the cells below are
  \<open>2^64 - 1\<close> rows apart and the heuristic is 1.
\<close>

lemma heuristic_wraps:
  "heuristic (2 ^ 63 - 1, 0) (- (2 ^ 63), 0) = (1, 0)"
  by (simp add: heuristic_eval fl_arith_eval dbl_sqrt)

section \<open>No bins\<close>

text \<open>
  C9. With an empty sequence of bins \<open>find_closest_bin\<close> returns Python's \<open>None\<close>, raises
  nothing and does not touch the door: a door as the constructor leaves it has neither an
  assigned bin nor a path afterwards, and a door that holds an assignment keeps it.
\<close>

theorem find_closest_bin_no_bins:
  "find_closest_bin d [] g = Some (Inr (d, None)) \<and>
   find_closest_bin (Door n px py) [] g = Some (Inr (Door n px py, None)) \<and>
   assigned_bin (Door n px py) = None \<and> path_to_bin (Door n px py) = None"
  by (simp add: find_closest_bin_def Door_def)

text \<open>
  The door that was assigned bin 1 in the corridor still holds the bin and the path after
  a call with no bins.
\<close>

theorem no_bins_keeps_assignment:
  "find_closest_bin (Door 1 0 0) [bin_at 1 (0, 1)] gap_grid
     = Some (Inr (assigned_door, Some (bin_at 1 (0, 1)))) \<and>
   find_closest_bin assigned_door [] gap_grid = Some (Inr (assigned_door, None)) \<and>
   assigned_bin assigned_door = Some 1 \<and>
   path_to_bin assigned_door = Some [(0, 0), (0, 1)]"
  using first_resolution by (simp add: find_closest_bin_no_bins_at assigned_door_def)

section \<open>Diagonal moves cut corners\<close>

text \<open>
  C10. A diagonal neighbour is generated whenever it is within bounds and passable; the two
  cells that flank the diagonal are not looked at. On the 2 x 2 grid whose anti-diagonal is
  blocked the search goes from (0, 0) to (1, 1) between the two obstacles.
\<close>

theorem diagonal_neighbor_ignores_flanks:
  assumes "\<bar>dr\<bar> = 1" and "\<bar>dc\<bar> = 1"
    and "in_bounds g (r + dr, c + dc)" and "grid_at g (r + dr, c + dc) = Inr 0"
  shows "(r + dr, c + dc) \<in> set (get_neighbors g (r, c)) \<and>
    find_shortest_path (0, 0) (1, 1) [[0, 1], [1, 0]] = Some (Inr (Some [(0, 0), (1, 1)]))"
proof -
  from assms(1,2) have "(dr, dc) \<in> set directions"
    by (auto simp: directions_def abs_if split: if_splits)
  then have "\<exists>d \<in> set directions. (r + dr, c + dc) = (fst (r, c) + fst d, snd (r, c) + snd d)"
    by force
  with assms(3,4) have "(r + dr, c + dc) \<in> set (get_neighbors g (r, c))"
    unfolding get_neighbors_iff by blast
  with run_corner show ?thesis by simp
qed

theorem diagonal_neighbor_ignores_flanks_witness:
  "(1, 1) \<in> set (get_neighbors [[0, 1], [1, 0]] (0, 0)) \<and>
   grid_at [[0, 1], [1, 0]] (0, 1) = Inr 1 \<and> grid_at [[0, 1], [1, 0]] (1, 0) = Inr 1 \<and>
   find_shortest_path (0, 0) (1, 1) [[0, 1], [1, 0]] = Some (Inr (Some [(0, 0), (1, 1)]))"
proof -
  have a: "\<bar>1 :: int\<bar> = 1" by simp
  have b: "in_bounds [[0, 1], [1, 0]] (0 + 1, 0 + 1)"
    by (simp add: in_bounds_def rows_def cols_def)
  have c: "grid_at [[0, 1], [1, 0]] (0 + 1, 0 + 1) = Inr 0"
    by (simp add: grid_at_def np_index_def rows_def cols_def)
  from diagonal_neighbor_ignores_flanks [OF a a b c] show ?thesis
    by (simp add: grid_at_def np_index_def rows_def cols_def)
qed

end
